theory Spec2Isabelle
  imports Complex_Main "HOL-Library.AList" "HOL-Library.Word"
begin

section \<open>Platform values shared by the three components\<close>

text \<open>
  JavaScript strings are modelled as \<open>string\<close>, integral numbers (counts, byte
  sizes, pixel sizes, \<open>Date.now()\<close> readings in milliseconds) as \<open>int\<close>.
  A JavaScript \<open>Map\<close> keeps its keys in insertion order: it is an association
  list, read with \<open>map_of\<close>, written with \<open>AList.update\<close> (replace in place, or
  append a new key at the end) and shrunk with \<open>AList.delete\<close>.
  Every \<open>Date.now()\<close> reading is an explicit argument of the operation that
  takes it.
\<close>

type_synonym 'v jsmap = "(string \<times> 'v) list"

definition is_ws :: "char \<Rightarrow> bool" where
  "is_ws c = (c = CHR '' '' \<or> c = CHR 0x09 \<or> c = CHR 0x0A \<or> c = CHR 0x0B
              \<or> c = CHR 0x0C \<or> c = CHR 0x0D)"

text \<open>\<open>String.prototype.trim\<close> on the ASCII white space characters.\<close>

definition trim :: "string \<Rightarrow> string" where
  "trim s = rev (dropWhile is_ws (rev (dropWhile is_ws s)))"

text \<open>\<open>String.prototype.toLowerCase\<close> on the ASCII letters.\<close>

definition lower_char :: "char \<Rightarrow> char" where
  "lower_char c =
     (let n = (of_char c :: nat) in if 65 \<le> n \<and> n \<le> 90 then char_of (n + 32) else c)"

definition toLowerCase :: "string \<Rightarrow> string" where
  "toLowerCase s = map lower_char s"

section \<open>Rate limiter (src/lib/rate-limiter.ts)\<close>

record RateLimitEntry =
  count :: int
  resetTime :: int

record RateLimiter =
  requests :: "RateLimitEntry jsmap"
  maxRequests :: int
  windowMs :: int

text \<open>The value \<open>checkLimit\<close> returns.\<close>

record LimitResult =
  allowed :: bool
  remaining :: int
  res_resetTime :: int

text \<open>
  A request is seen through its headers only; \<open>headers.get\<close> answers \<open>null\<close>
  for a missing header.
\<close>

type_synonym request = "string jsmap"

definition headers_get :: "request \<Rightarrow> string \<Rightarrow> string option" where
  "headers_get req name = map_of req name"

text \<open>A header value counts when it is neither \<open>null\<close> nor the empty string.\<close>

definition truthy_str :: "string option \<Rightarrow> bool" where
  "truthy_str v = (case v of None \<Rightarrow> False | Some s \<Rightarrow> s \<noteq> [])"

definition getClientIP :: "request \<Rightarrow> string" where
  "getClientIP req =
     (let forwarded = headers_get req ''x-forwarded-for'';
          realIP = headers_get req ''x-real-ip'';
          cfConnectingIP = headers_get req ''cf-connecting-ip''
      in if truthy_str cfConnectingIP then the cfConnectingIP
         else if truthy_str realIP then the realIP
         else if truthy_str forwarded
           then trim (takeWhile (\<lambda>c. c \<noteq> CHR '','') (the forwarded))
         else ''unknown'')"

text \<open>The constructor: an empty window table.\<close>

definition newRateLimiter :: "int \<Rightarrow> int \<Rightarrow> RateLimiter" where
  "newRateLimiter mx win = \<lparr>requests = [], maxRequests = mx, windowMs = win\<rparr>"

text \<open>The exported instance, \<open>new RateLimiter(10, 60000)\<close>.\<close>

definition rateLimiter :: RateLimiter where
  "rateLimiter = newRateLimiter 10 60000"

text \<open>\<open>checkLimit\<close> returns its answer and the limiter as it leaves it.\<close>

definition checkLimit :: "RateLimiter \<Rightarrow> request \<Rightarrow> int \<Rightarrow> LimitResult \<times> RateLimiter" where
  "checkLimit rl req now =
     (let clientIP = getClientIP req in
      case map_of (requests rl) clientIP of
        None \<Rightarrow>
          (\<lparr>allowed = True, remaining = maxRequests rl - 1, res_resetTime = now + windowMs rl\<rparr>,
           rl\<lparr>requests := AList.update clientIP
                 \<lparr>count = 1, resetTime = now + windowMs rl\<rparr> (requests rl)\<rparr>)
      | Some entry \<Rightarrow>
          if now > resetTime entry then
            (\<lparr>allowed = True, remaining = maxRequests rl - 1, res_resetTime = now + windowMs rl\<rparr>,
             rl\<lparr>requests := AList.update clientIP
                   \<lparr>count = 1, resetTime = now + windowMs rl\<rparr> (requests rl)\<rparr>)
          else if count entry \<ge> maxRequests rl then
            (\<lparr>allowed = False, remaining = 0, res_resetTime = resetTime entry\<rparr>, rl)
          else
            (\<lparr>allowed = True, remaining = maxRequests rl - (count entry + 1),
              res_resetTime = resetTime entry\<rparr>,
             rl\<lparr>requests := AList.update clientIP
                   (entry\<lparr>count := count entry + 1\<rparr>) (requests rl)\<rparr>))"

text \<open>The periodic sweep: windows whose reset time has passed are dropped.\<close>

definition rl_cleanup :: "RateLimiter \<Rightarrow> int \<Rightarrow> RateLimiter" where
  "rl_cleanup rl now = rl\<lparr>requests := filter (\<lambda>(key, entry). \<not> now > resetTime entry) (requests rl)\<rparr>"

subsection \<open>The limiter over time\<close>

text \<open>
  What happens to the limiter, in the order it happens: a call of \<open>checkLimit\<close>
  with its request and its clock reading, or a run of the periodic sweep with
  its clock reading. \<open>rl_run\<close> gives the answers of the calls, each with the
  client it went to, and the limiter at the end.
\<close>

datatype rl_event = Check request int | Sweep int

fun rl_run :: "RateLimiter \<Rightarrow> rl_event list \<Rightarrow> (string \<times> LimitResult) list \<times> RateLimiter" where
  "rl_run rl [] = ([], rl)"
| "rl_run rl (Check req now # evs) =
     (let (r, rl1) = checkLimit rl req now;
          (rs, rl2) = rl_run rl1 evs
      in ((getClientIP req, r) # rs, rl2))"
| "rl_run rl (Sweep now # evs) = rl_run (rl_cleanup rl now) evs"

section \<open>Fingerprint cache (the cache manager, src/unnamed/part_001)\<close>

datatype image_format = Png | Jpeg | Webp | Avif | Bmp

fun format_str :: "image_format \<Rightarrow> string" where
  "format_str Png = ''png''"
| "format_str Jpeg = ''jpeg''"
| "format_str Webp = ''webp''"
| "format_str Avif = ''avif''"
| "format_str Bmp = ''bmp''"

text \<open>
  The capture parameters as \<open>sanitizeScreenshotParams\<close> produces them and as the
  job record declares them. The delay is a number of seconds that need not be
  integral; no arithmetic but comparison is done on it, so a rational stands for it.
\<close>

record ScreenshotParams =
  url :: string
  fullPage :: bool
  width :: int
  height :: int
  format :: image_format
  delay :: rat

type_synonym buffer = "8 word list"

record Metadata =
  m_url :: string
  m_params :: ScreenshotParams
  m_format :: string
  createdAt :: int
  lastAccessed :: int
  m_size :: int

record CacheEntry =
  key :: string
  filePath :: string
  metadata :: Metadata

text \<open>
  The manager's fields, and with them the directory of files it writes to:
  \<open>disk\<close> maps a path to the content of the file there.
\<close>

record CacheManager =
  cache :: "CacheEntry jsmap"
  cacheDir :: string
  maxCacheSize :: int
  maxCacheAge :: int
  disk :: "string \<rightharpoonup> buffer"

text \<open>
  What the file system does to one call: which operations are rejected although
  the path is fine. Reading, unlinking or stat-ing a missing file is rejected in
  any case. A rejected operation leaves the files as they were.
\<close>

record io_faults =
  writeFile_fails :: bool
  stat_fails :: bool
  readFile_fails :: bool
  unlink_fails :: "string \<Rightarrow> bool"

definition fs_writeFile :: "bool \<Rightarrow> (string \<rightharpoonup> buffer) \<Rightarrow> string \<Rightarrow> buffer \<Rightarrow> (string \<rightharpoonup> buffer) option" where
  "fs_writeFile fails d path buf = (if fails then None else Some (d(path \<mapsto> buf)))"

definition fs_stat :: "bool \<Rightarrow> (string \<rightharpoonup> buffer) \<Rightarrow> string \<Rightarrow> int option" where
  "fs_stat fails d path =
     (if fails then None else case d path of None \<Rightarrow> None | Some buf \<Rightarrow> Some (int (length buf)))"

definition fs_readFile :: "bool \<Rightarrow> (string \<rightharpoonup> buffer) \<Rightarrow> string \<Rightarrow> buffer option" where
  "fs_readFile fails d path = (if fails then None else d path)"

definition fs_unlink :: "bool \<Rightarrow> (string \<rightharpoonup> buffer) \<Rightarrow> string \<Rightarrow> (string \<rightharpoonup> buffer) option" where
  "fs_unlink fails d path =
     (if fails then None else case d path of None \<Rightarrow> None | Some buf \<Rightarrow> Some (d(path := None)))"

text \<open>The object \<open>generateCacheKey\<close> serialises.\<close>

record NormalizedParams =
  n_url :: string
  n_fullPage :: bool
  n_width :: int
  n_height :: int
  n_format :: string
  n_delay :: rat

text \<open>\<open>String(params.format).toLowerCase() || "png"\<close>\<close>

definition format_or_png :: "ScreenshotParams \<Rightarrow> string" where
  "format_or_png ps = (let s = toLowerCase (format_str (format ps)) in if s = [] then ''png'' else s)"

definition normalizedParams :: "string \<Rightarrow> ScreenshotParams \<Rightarrow> NormalizedParams" where
  "normalizedParams u ps =
     \<lparr>n_url = trim (toLowerCase u),
      n_fullPage = fullPage ps,
      n_width = (if fullPage ps then 0 else if width ps = 0 then 1280 else width ps),
      n_height = (if fullPage ps then 0 else if height ps = 0 then 800 else height ps),
      n_format = format_or_png ps,
      n_delay = (if delay ps = 0 then 0 else delay ps)\<rparr>"

text \<open>
  The digest is the platform's: \<open>H\<close> stands for the SHA-256 hex digest of
  \<open>JSON.stringify\<close> of the object.
\<close>

definition generateCacheKey :: "(NormalizedParams \<Rightarrow> string) \<Rightarrow> string \<Rightarrow> ScreenshotParams \<Rightarrow> string" where
  "generateCacheKey H u ps = H (normalizedParams u ps)"

text \<open>\<open>path.join\<close> of the directory and the file name \<open>key.format\<close>.\<close>

definition getFilePath :: "CacheManager \<Rightarrow> string \<Rightarrow> string \<Rightarrow> string" where
  "getFilePath cm k fmt = cacheDir cm @ ''/'' @ k @ ''.'' @ fmt"

definition cm_delete :: "CacheManager \<Rightarrow> string \<Rightarrow> io_faults \<Rightarrow> CacheManager" where
  "cm_delete cm k io =
     (case map_of (cache cm) k of
        None \<Rightarrow> cm
      | Some entry \<Rightarrow>
          (case fs_unlink (unlink_fails io (filePath entry)) (disk cm) (filePath entry) of
             Some d \<Rightarrow> cm\<lparr>disk := d, cache := AList.delete k (cache cm)\<rparr>
           | None \<Rightarrow> cm\<lparr>cache := AList.delete k (cache cm)\<rparr>))"

definition cm_get :: "(NormalizedParams \<Rightarrow> string) \<Rightarrow> CacheManager \<Rightarrow> string \<Rightarrow> ScreenshotParams
    \<Rightarrow> int \<Rightarrow> io_faults \<Rightarrow> buffer option \<times> CacheManager" where
  "cm_get H cm u ps now io =
     (let k = generateCacheKey H u ps in
      case map_of (cache cm) k of
        None \<Rightarrow> (None, cm)
      | Some entry \<Rightarrow>
          if now - createdAt (metadata entry) > maxCacheAge cm then (None, cm_delete cm k io)
          else
            let entry1 = entry\<lparr>metadata := (metadata entry)\<lparr>lastAccessed := now\<rparr>\<rparr>;
                cm1 = cm\<lparr>cache := AList.update k entry1 (cache cm)\<rparr>
            in (case fs_readFile (readFile_fails io) (disk cm1) (filePath entry1) of
                  Some buf \<Rightarrow> (Some buf, cm1)
                | None \<Rightarrow> (None, cm_delete cm1 k io)))"

definition totalSize :: "CacheManager \<Rightarrow> int" where
  "totalSize cm = sum_list (map (\<lambda>entry. m_size (metadata entry)) (map snd (cache cm)))"

subsection \<open>The eviction threshold\<close>

text \<open>
  The threshold of the eviction loop is \<open>maxCacheSize * 0.8\<close>, a product of two
  doubles. The double nearest to 0.8 is \<open>point8 / 2^52\<close>. For a whole number
  \<open>x\<close> of bytes the exact product is \<open>x * point8 / 2^52\<close>, and the double
  product is that number rounded to 53 significant bits, to nearest, ties to
  even: \<open>excess_bits\<close> counts the bits of \<open>x * point8\<close> beyond 53, and
  \<open>round_half_even p s\<close> is \<open>p / 2^s\<close> rounded to a whole number.
\<close>

definition point8 :: int where
  "point8 = 3602879701896397"

function excess_bits :: "int \<Rightarrow> nat" where
  "excess_bits p = (if p < 2 ^ 53 then 0 else Suc (excess_bits (p div 2)))"
  by pat_completeness auto
termination by (relation "measure nat") auto

declare excess_bits.simps [simp del]

definition round_half_even :: "int \<Rightarrow> nat \<Rightarrow> int" where
  "round_half_even p s =
     (let q = p div 2 ^ s; r = p mod 2 ^ s
      in if 2 * r > 2 ^ s \<or> (2 * r = 2 ^ s \<and> odd q) then q + 1 else q)"

definition times_0_8 :: "int \<Rightarrow> rat" where
  "times_0_8 x =
     (let p = \<bar>x\<bar> * point8; s = excess_bits p
      in of_int (sgn x * (round_half_even p s * 2 ^ s)) / 2 ^ 52)"

definition within_margin :: "int \<Rightarrow> int \<Rightarrow> bool" where
  "within_margin currentSize mx = (of_int currentSize \<le> times_0_8 mx)"

subsection \<open>Size enforcement and \<open>set\<close>\<close>

text \<open>
  The eviction loop over the sorted snapshot. The snapshot is sorted by
  \<open>Array.prototype.sort\<close>, which is stable, as \<open>sort_key\<close> is. Sizes are whole
  numbers of bytes and are added and subtracted as such, which is what the
  double arithmetic of the source does with whole numbers below \<open>2^53\<close>.
\<close>

fun enforceSize_loop :: "CacheManager \<Rightarrow> io_faults \<Rightarrow> CacheEntry list \<Rightarrow> int \<Rightarrow> CacheManager" where
  "enforceSize_loop cm io [] currentSize = cm"
| "enforceSize_loop cm io (entry # entries) currentSize =
     (if within_margin currentSize (maxCacheSize cm) then cm
      else enforceSize_loop (cm_delete cm (key entry) io) io entries
             (currentSize - m_size (metadata entry)))"

definition enforceSize :: "CacheManager \<Rightarrow> io_faults \<Rightarrow> CacheManager" where
  "enforceSize cm io =
     (if totalSize cm \<le> maxCacheSize cm then cm
      else enforceSize_loop cm io
             (sort_key (\<lambda>entry. lastAccessed (metadata entry)) (map snd (cache cm)))
             (totalSize cm))"

text \<open>
  \<open>set\<close>, as a call that runs from its start to its end with no other call on
  the manager in between; the next subsection takes it await by await. The two
  \<open>Date.now()\<close> readings are \<open>tc\<close> (creation) and \<open>ta\<close> (last access). A
  rejected write or stat leaves the index as it was.
\<close>

definition cm_set :: "(NormalizedParams \<Rightarrow> string) \<Rightarrow> CacheManager \<Rightarrow> string \<Rightarrow> ScreenshotParams
    \<Rightarrow> buffer \<Rightarrow> int \<Rightarrow> int \<Rightarrow> io_faults \<Rightarrow> CacheManager" where
  "cm_set H cm u ps buf tc ta io =
     (let k = generateCacheKey H u ps;
          fmt = format_or_png ps;
          path = getFilePath cm k fmt
      in (case fs_writeFile (writeFile_fails io) (disk cm) path buf of
            None \<Rightarrow> cm
          | Some d \<Rightarrow>
              (let cm1 = cm\<lparr>disk := d\<rparr> in
               (case fs_stat (stat_fails io) (disk cm1) path of
                  None \<Rightarrow> cm1
                | Some sz \<Rightarrow>
                    (let entry = \<lparr>key = k, filePath = path,
                                  metadata = \<lparr>m_url = u, m_params = ps, m_format = fmt,
                                              createdAt = tc, lastAccessed = ta, m_size = sz\<rparr>\<rparr>
                     in enforceSize (cm1\<lparr>cache := AList.update k entry (cache cm1)\<rparr>) io)))))"

definition cm_cleanup :: "CacheManager \<Rightarrow> int \<Rightarrow> io_faults \<Rightarrow> CacheManager" where
  "cm_cleanup cm now io =
     (let expiredKeys = map fst (filter (\<lambda>(k, entry). now - createdAt (metadata entry) > maxCacheAge cm) (cache cm))
      in fold (\<lambda>k c. cm_delete c k io) expiredKeys cm)"

definition cm_clear :: "CacheManager \<Rightarrow> io_faults \<Rightarrow> CacheManager" where
  "cm_clear cm io = fold (\<lambda>k c. cm_delete c k io) (map fst (cache cm)) cm"

text \<open>The constructor, with an empty index over the given directory content.\<close>

definition newCacheManager :: "string \<Rightarrow> int \<Rightarrow> int \<Rightarrow> (string \<rightharpoonup> buffer) \<Rightarrow> CacheManager" where
  "newCacheManager dir mx age d =
     \<lparr>cache = [], cacheDir = dir, maxCacheSize = mx, maxCacheAge = age, disk = d\<rparr>"

subsection \<open>\<open>set\<close>, suspended at its awaits\<close>











subsection \<open>Calls of \<open>set\<close> that overlap\<close>





section \<open>URL validation and parameter clamping (security module, src/lib/rate-limiter.ts from line 68)\<close>

text \<open>
  \<open>new URL(url)\<close> is the platform's parser. It is a parameter \<open>U\<close>: \<open>None\<close> when
  the constructor throws, else the two components the validator reads.
\<close>

record ParsedURL =
  protocol :: string
  hostname :: string

record UrlValidation =
  valid :: bool
  v_error :: "string option"

definition startsWith :: "string \<Rightarrow> string \<Rightarrow> bool" where
  "startsWith s p = (take (length p) s = p)"

fun str_includes :: "string \<Rightarrow> string \<Rightarrow> bool" where
  "str_includes [] p = (p = [])"
| "str_includes (c # s) p = (startsWith (c # s) p \<or> str_includes s p)"

text \<open>The prefixes \<open>/^172\.(1[6-9]|2[0-9]|3[01])\./\<close> accepts.\<close>

definition private172 :: "string list" where
  "private172 =
     concat (map (\<lambda>(a, bs). map (\<lambda>b. ''172.'' @ [a, b] @ ''.'') bs)
       [(CHR ''1'', ''6789''), (CHR ''2'', ''0123456789''), (CHR ''3'', ''01'')])"

definition blockedHost :: "string \<Rightarrow> bool" where
  "blockedHost h =
     (h \<in> set [''localhost'', ''127.0.0.1'', ''0.0.0.0'', ''::1'']
      \<or> startsWith h ''192.168.''
      \<or> startsWith h ''10.''
      \<or> list_ex (startsWith h) private172
      \<or> startsWith h ''169.254.''
      \<or> startsWith h ''fe80:''
      \<or> startsWith h ''fc00:''
      \<or> startsWith h ''fd00:''
      \<or> startsWith h ''224.''
      \<or> startsWith h ''ff00:'')"

definition suspiciousDomains :: "string list" where
  "suspiciousDomains = [''bit.ly'', ''tinyurl.com'', ''t.co'', ''goo.gl'', ''ow.ly'', ''short.link'']"

text \<open>The case-insensitive patterns, matched against the lower-cased URL.\<close>

definition suspiciousPatterns :: "string list" where
  "suspiciousPatterns = [''javascript:'', ''data:'', ''vbscript:'', ''file:'', ''ftp:'']"

definition validateUrl :: "(string \<Rightarrow> ParsedURL option) \<Rightarrow> string \<Rightarrow> UrlValidation" where
  "validateUrl U u =
     (case U u of
        None \<Rightarrow> \<lparr>valid = False, v_error = Some ''Invalid URL format''\<rparr>
      | Some parsedUrl \<Rightarrow>
          let h = toLowerCase (hostname parsedUrl) in
          if protocol parsedUrl \<notin> set [''http:'', ''https:''] then
            \<lparr>valid = False, v_error = Some ''Only HTTP and HTTPS protocols are allowed''\<rparr>
          else if blockedHost h then
            \<lparr>valid = False, v_error = Some ''Local and private network addresses are not allowed''\<rparr>
          else if list_ex (str_includes h) suspiciousDomains then
            \<lparr>valid = False, v_error = Some ''URL shorteners and suspicious domains are not allowed''\<rparr>
          else if list_ex (str_includes (toLowerCase u)) suspiciousPatterns then
            \<lparr>valid = False, v_error = Some ''Suspicious URL pattern detected''\<rparr>
          else \<lparr>valid = True, v_error = None\<rparr>)"

text \<open>
  The request body as the caller sends it, each field present or not
  (\<open>None\<close> is \<open>undefined\<close>), with numbers where numbers are expected.
\<close>

record RawParams =
  raw_url :: "string option"
  raw_fullPage :: "bool option"
  raw_width :: "int option"
  raw_height :: "int option"
  raw_format :: "string option"
  raw_delay :: "rat option"

text \<open>What \<open>String(x)\<close> gives the URL parser for the url field.\<close>

definition url_arg :: "RawParams \<Rightarrow> string" where
  "url_arg raw = (case raw_url raw of None \<Rightarrow> ''undefined'' | Some s \<Rightarrow> s)"

text \<open>\<open>Number.parseInt(String(x)) || dflt\<close> on an integer field.\<close>

definition int_or :: "int option \<Rightarrow> int \<Rightarrow> int" where
  "int_or x dflt = (case x of None \<Rightarrow> dflt | Some n \<Rightarrow> if n = 0 then dflt else n)"

definition sanitizeScreenshotParams :: "RawParams \<Rightarrow> ScreenshotParams" where
  "sanitizeScreenshotParams raw =
     (let formatStr = toLowerCase (case raw_format raw of None \<Rightarrow> ''undefined'' | Some s \<Rightarrow> s);
          validFormat =
            (if formatStr \<in> set [''jpeg'', ''jpg''] then Jpeg
             else if formatStr = ''webp'' then Webp
             else if formatStr = ''avif'' then Avif
             else if formatStr = ''bmp'' then Bmp
             else Png)
      in \<lparr>url = trim (case raw_url raw of None \<Rightarrow> [] | Some s \<Rightarrow> s),
          fullPage = (case raw_fullPage raw of None \<Rightarrow> False | Some b \<Rightarrow> b),
          width = min (max (int_or (raw_width raw) 1280) 320) 3840,
          height = min (max (int_or (raw_height raw) 800) 240) 2160,
          format = validFormat,
          delay = min (max (case raw_delay raw of None \<Rightarrow> 0 | Some d \<Rightarrow> d) 0) 10\<rparr>)"

section \<open>Job scheduler (src/lib/job-queue.ts)\<close>

datatype job_status = Pending | Processing | Completed | Failed

record JobResult =
  data :: string
  r_format :: string
  timestamp :: string
  fromCache :: bool

record ScreenshotJob =
  job_id :: string
  status :: job_status
  params :: ScreenshotParams
  result :: "JobResult option"
  error :: "string option"
  job_createdAt :: int
  completedAt :: "int option"

text \<open>
  The queue object. \<open>current\<close> is the local state of the worker loop while it is
  suspended inside an iteration: the identifier it dequeued and the job object
  it holds. It is \<open>None\<close> when no iteration is under way.
\<close>

record JobQueue =
  jobs :: "ScreenshotJob jsmap"
  processingQueue :: "string list"
  isProcessing :: bool
  current :: "(string \<times> ScreenshotJob) option"

definition newJobQueue :: JobQueue where
  "newJobQueue = \<lparr>jobs = [], processingQueue = [], isProcessing = False, current = None\<rparr>"

text \<open>What \<open>createJob\<close> returns.\<close>

record CreateResult =
  jobId :: string
  c_error :: "string option"

text \<open>A thrown value: an \<open>Error\<close> with its message, or anything else.\<close>

datatype thrown = Error string | NotAnError

text \<open>Decimal digits of a number that is not negative, as a clock reading is.\<close>

function decimal :: "int \<Rightarrow> string" where
  "decimal n = (if n < 10 then [char_of (48 + n)] else decimal (n div 10) @ [char_of (48 + n mod 10)])"
  by pat_completeness auto
termination
  by (relation "measure nat") auto

declare decimal.simps [simp del]

text \<open>
  \<open>generateJobId\<close>: \<open>rnd\<close> is the text
  \<open>Math.random().toString(36).substr(2, 9)\<close> gave.
\<close>

definition generateJobId :: "int \<Rightarrow> string \<Rightarrow> string" where
  "generateJobId now rnd = ''job_'' @ decimal now @ ''_'' @ rnd"

text \<open>
  The head of the worker loop, up to the point where an iteration suspends:
  identifiers that are empty or have no job are skipped.
\<close>

fun next_job :: "ScreenshotJob jsmap \<Rightarrow> string list \<Rightarrow> (string \<times> ScreenshotJob) option \<times> string list" where
  "next_job js [] = (None, [])"
| "next_job js (i # rest) =
     (if i = [] then next_job js rest
      else case map_of js i of
             None \<Rightarrow> next_job js rest
           | Some job \<Rightarrow> (Some (i, job), rest))"

definition run_loop :: "JobQueue \<Rightarrow> JobQueue" where
  "run_loop q =
     (case next_job (jobs q) (processingQueue q) of
        (None, rest) \<Rightarrow> q\<lparr>processingQueue := rest, isProcessing := False, current := None\<rparr>
      | (Some (i, job), rest) \<Rightarrow>
          let job1 = job\<lparr>status := Processing\<rparr>
          in q\<lparr>processingQueue := rest, jobs := AList.update i job1 (jobs q),
                current := Some (i, job1)\<rparr>)"

text \<open>\<open>processQueue\<close> as far as it runs before it first suspends.\<close>

definition processQueue :: "JobQueue \<Rightarrow> JobQueue" where
  "processQueue q = (if isProcessing q then q else run_loop (q\<lparr>isProcessing := True\<rparr>))"

text \<open>
  The part of \<open>createJob\<close> that records the job and enqueues its identifier.
  \<open>createJob\<close> reads the clock twice: \<open>now\<close> goes into the identifier,
  \<open>created\<close> into the record.
\<close>

definition registerJob :: "JobQueue \<Rightarrow> string \<Rightarrow> ScreenshotParams \<Rightarrow> int \<Rightarrow> JobQueue" where
  "registerJob q i sanitizedParams now =
     (let job = \<lparr>job_id = i, status = Pending, params = sanitizedParams, result = None,
                 error = None, job_createdAt = now, completedAt = None\<rparr>
      in q\<lparr>jobs := AList.update i job (jobs q), processingQueue := processingQueue q @ [i]\<rparr>)"

definition createJob :: "(string \<Rightarrow> ParsedURL option) \<Rightarrow> JobQueue \<Rightarrow> RawParams \<Rightarrow> int \<Rightarrow> string
    \<Rightarrow> int \<Rightarrow> CreateResult \<times> JobQueue" where
  "createJob U q raw now rnd created =
     (let urlValidation = validateUrl U (url_arg raw) in
      if \<not> valid urlValidation then (\<lparr>jobId = [], c_error = v_error urlValidation\<rparr>, q)
      else
        let sanitizedParams = sanitizeScreenshotParams raw in
        if url sanitizedParams = [] then (\<lparr>jobId = [], c_error = Some ''URL is required''\<rparr>, q)
        else
          let i = generateJobId now rnd;
              q1 = registerJob q i sanitizedParams created;
              q2 = (if \<not> isProcessing q1 then processQueue q1 else q1)
          in (\<lparr>jobId = i, c_error = None\<rparr>, q2))"

definition getJob :: "JobQueue \<Rightarrow> string \<Rightarrow> ScreenshotJob option" where
  "getJob q i = map_of (jobs q) i"

definition getAllJobs :: "JobQueue \<Rightarrow> ScreenshotJob list" where
  "getAllJobs q = map snd (jobs q)"

text \<open>The hourly sweep of jobs completed more than an hour ago.\<close>

definition jq_cleanup :: "JobQueue \<Rightarrow> int \<Rightarrow> JobQueue" where
  "jq_cleanup q now =
     (let oneHourAgo = now - 60 * 60 * 1000
      in q\<lparr>jobs := filter (\<lambda>(i, job).
              \<not> (case completedAt job of None \<Rightarrow> False | Some t \<Rightarrow> t \<noteq> 0 \<and> t < oneHourAgo))
            (jobs q)\<rparr>)"

text \<open>
  The retry loop of one iteration. \<open>capture k\<close> is what the call of
  \<open>captureScreenshot\<close> made with \<open>retryCount = k\<close> does: it throws (\<open>Inl\<close>) or
  returns the image. The result carries, besides the outcome, the number of
  calls made and the timeouts (in milliseconds) waited for.
\<close>

definition maxRetries :: nat where
  "maxRetries = 2"

function captureWithRetry :: "(nat \<Rightarrow> thrown + buffer) \<Rightarrow> nat \<Rightarrow> (thrown + buffer option) \<times> nat \<times> int list" where
  "captureWithRetry capture retryCount =
     (if retryCount \<le> maxRetries then
        (case capture retryCount of
           Inr shot \<Rightarrow> (Inr (Some shot), 1, [])
         | Inl e \<Rightarrow>
             if retryCount + 1 > maxRetries then (Inl e, 1, [])
             else (case captureWithRetry capture (retryCount + 1) of
                     (r, n, ws) \<Rightarrow> (r, n + 1, 2000 # ws)))
      else (Inr None, 0, []))"
  by pat_completeness auto
termination
  by (relation "measure (\<lambda>(capture, retryCount). Suc maxRetries - retryCount)") auto

declare captureWithRetry.simps [simp del]

text \<open>
  Everything one iteration reads from outside the queue: the clock readings,
  the behaviour of the file system during the cache calls, and the capture port.
\<close>

record job_env =
  t_get :: int
  io_get :: io_faults
  capture :: "nat \<Rightarrow> thrown + buffer"
  t_set_created :: int
  t_set_accessed :: int
  io_set :: io_faults
  t_stamp :: int
  t_done :: int

text \<open>
  The platform's encoders: \<open>b64\<close> is \<open>Buffer.toString("base64")\<close>, \<open>toISO\<close> is
  \<open>Date.toISOString\<close> of a clock reading.
\<close>

definition completeJob :: "(buffer \<Rightarrow> string) \<Rightarrow> (int \<Rightarrow> string) \<Rightarrow> ScreenshotJob \<Rightarrow> buffer \<Rightarrow> bool
    \<Rightarrow> job_env \<Rightarrow> ScreenshotJob" where
  "completeJob b64 toISO job shot fc env =
     job\<lparr>status := Completed,
         result := Some \<lparr>data = ''data:image/'' @ format_str (format (params job)) @ '';base64,'' @ b64 shot,
                         r_format = format_str (format (params job)),
                         timestamp = toISO (t_stamp env),
                         fromCache = fc\<rparr>,
         completedAt := Some (t_done env)\<rparr>"

text \<open>\<open>error instanceof Error ? error.message : "Unknown error occurred"\<close>\<close>

definition thrown_message :: "thrown \<Rightarrow> string" where
  "thrown_message e = (case e of Error msg \<Rightarrow> msg | NotAnError \<Rightarrow> ''Unknown error occurred'')"

definition failJob :: "ScreenshotJob \<Rightarrow> thrown \<Rightarrow> job_env \<Rightarrow> ScreenshotJob" where
  "failJob job e env =
     job\<lparr>status := Failed,
         error := Some (thrown_message e),
         completedAt := Some (t_done env)\<rparr>"

text \<open>
  The body of one iteration after the job is marked: the job as the iteration
  leaves it, the cache, the number of capture calls and the timeouts waited for.
\<close>

definition processJob :: "(NormalizedParams \<Rightarrow> string) \<Rightarrow> (buffer \<Rightarrow> string) \<Rightarrow> (int \<Rightarrow> string)
    \<Rightarrow> CacheManager \<Rightarrow> ScreenshotJob \<Rightarrow> job_env \<Rightarrow> ScreenshotJob \<times> CacheManager \<times> nat \<times> int list" where
  "processJob H b64 toISO cm job env =
     (case cm_get H cm (url (params job)) (params job) (t_get env) (io_get env) of
        (Some shot, cm1) \<Rightarrow> (completeJob b64 toISO job shot True env, cm1, 0, [])
      | (None, cm1) \<Rightarrow>
          (case captureWithRetry (capture env) 0 of
             (Inl e, n, ws) \<Rightarrow> (failJob job e env, cm1, n, ws)
           | (Inr None, n, ws) \<Rightarrow>
               (failJob job (Error ''Failed to capture screenshot'') env, cm1, n, ws)
           | (Inr (Some shot), n, ws) \<Rightarrow>
               (completeJob b64 toISO job shot False env,
                cm_set H cm1 (url (params job)) (params job) shot
                  (t_set_created env) (t_set_accessed env) (io_set env),
                n, ws)))"

text \<open>
  The worker loop resumes: it finishes the iteration under way, stores the job,
  and runs on to the next point of suspension or to the end of the loop. The
  suspensions inside one iteration (cache read, captures, timeouts, cache
  write) are taken as one; calls on the queue between the dequeuing and the
  resumption are separate steps.
\<close>

definition resume :: "(NormalizedParams \<Rightarrow> string) \<Rightarrow> (buffer \<Rightarrow> string) \<Rightarrow> (int \<Rightarrow> string)
    \<Rightarrow> JobQueue \<Rightarrow> CacheManager \<Rightarrow> job_env \<Rightarrow> JobQueue \<times> CacheManager" where
  "resume H b64 toISO q cm env =
     (case current q of
        None \<Rightarrow> (q, cm)
      | Some (i, job) \<Rightarrow>
          (case processJob H b64 toISO cm job env of
             (job1, cm1, n, ws) \<Rightarrow>
               (run_loop (q\<lparr>jobs := AList.update i job1 (jobs q), current := None\<rparr>), cm1)))"

subsection \<open>The status route (second handler in src/app/api/screenshot/route.ts)\<close>

record StatusResponse =
  s_jobId :: string
  s_status :: job_status
  s_createdAt :: string
  s_completedAt :: "string option"
  s_result :: "JobResult option"
  s_error :: "string option"

datatype status_reply = BadRequest | NotFound | Found StatusResponse

definition status_GET :: "(int \<Rightarrow> string) \<Rightarrow> JobQueue \<Rightarrow> string \<Rightarrow> status_reply" where
  "status_GET toISO q i =
     (if i = [] then BadRequest
      else case getJob q i of
             None \<Rightarrow> NotFound
           | Some job \<Rightarrow>
               Found \<lparr>s_jobId = job_id job,
                      s_status = status job,
                      s_createdAt = toISO (job_createdAt job),
                      s_completedAt = (case completedAt job of
                                         None \<Rightarrow> None
                                       | Some t \<Rightarrow> if t = 0 then None else Some (toISO t)),
                      s_result = result job,
                      s_error = error job\<rparr>)"

subsection \<open>The scheduler as a transition system\<close>

text \<open>
  The calls that change the queue, one per event. The cache and the
  environment of an iteration are arbitrary at every resumption.
\<close>

datatype event =
    CreateJob RawParams int string int
  | Resume CacheManager job_env
  | Cleanup int

fun q_step :: "(string \<Rightarrow> ParsedURL option) \<Rightarrow> (NormalizedParams \<Rightarrow> string) \<Rightarrow> (buffer \<Rightarrow> string)
    \<Rightarrow> (int \<Rightarrow> string) \<Rightarrow> event \<Rightarrow> JobQueue \<Rightarrow> JobQueue" where
  "q_step U H b64 toISO (CreateJob raw now rnd created) q = snd (createJob U q raw now rnd created)"
| "q_step U H b64 toISO (Resume cm env) q = fst (resume H b64 toISO q cm env)"
| "q_step U H b64 toISO (Cleanup now) q = jq_cleanup q now"

text \<open>An identifier is generated once: a creation event brings one no job has.\<close>

fun fresh_event :: "JobQueue \<Rightarrow> event \<Rightarrow> bool" where
  "fresh_event q (CreateJob raw now rnd created) = (map_of (jobs q) (generateJobId now rnd) = None)"
| "fresh_event q (Resume cm env) = True"
| "fresh_event q (Cleanup now) = True"

inductive reachable :: "(string \<Rightarrow> ParsedURL option) \<Rightarrow> (NormalizedParams \<Rightarrow> string) \<Rightarrow> (buffer \<Rightarrow> string)
    \<Rightarrow> (int \<Rightarrow> string) \<Rightarrow> JobQueue \<Rightarrow> bool"
  for U H b64 toISO where
    initial: "reachable U H b64 toISO newJobQueue"
  | step: "reachable U H b64 toISO q \<Longrightarrow> fresh_event q e \<Longrightarrow> reachable U H b64 toISO (q_step U H b64 toISO e q)"

definition terminal :: "job_status \<Rightarrow> bool" where
  "terminal s = (s = Completed \<or> s = Failed)"

text \<open>One move along the chain, or none.\<close>

definition status_forward :: "job_status \<Rightarrow> job_status \<Rightarrow> bool" where
  "status_forward a b =
     (a = b \<or> (a = Pending \<and> b = Processing) \<or> (a = Processing \<and> terminal b))"

section \<open>Notions used to state the rate limiter properties\<close>

text \<open>
  The answer to a call inside a window with reset time \<open>r\<close> that is the \<open>c\<close>-th
  of its window.
\<close>

definition in_window_answer :: "int \<Rightarrow> int \<Rightarrow> int \<Rightarrow> LimitResult" where
  "in_window_answer mx r c =
     (if c \<le> mx then \<lparr>allowed = True, remaining = mx - c, res_resetTime = r\<rparr>
      else \<lparr>allowed = False, remaining = 0, res_resetTime = r\<rparr>)"

text \<open>The clock reading of an event, and whether it is a call of the given client.\<close>

fun ev_time :: "rl_event \<Rightarrow> int" where
  "ev_time (Check req now) = now"
| "ev_time (Sweep now) = now"

fun call_of :: "string \<Rightarrow> rl_event \<Rightarrow> bool" where
  "call_of a (Check req now) = (getClientIP req = a)"
| "call_of a (Sweep now) = False"

text \<open>The answers one client gets, in order.\<close>

definition answers_to :: "string \<Rightarrow> RateLimiter \<Rightarrow> rl_event list \<Rightarrow> LimitResult list" where
  "answers_to a rl evs = map snd (filter (\<lambda>p. fst p = a) (fst (rl_run rl evs)))"

text \<open>The exported limiter after a history of calls and sweeps.\<close>

definition limiter_after :: "rl_event list \<Rightarrow> RateLimiter" where
  "limiter_after history = snd (rl_run rateLimiter history)"


section \<open>Notions used to state the cache properties\<close>

text \<open>
  What every index entry satisfies: it is filed under its own key, its file
  path is the one \<open>getFilePath\<close> derives from key and format, the format
  has no dot in it, and its size is not negative.
\<close>

definition entry_ok :: "CacheManager \<Rightarrow> string \<times> CacheEntry \<Rightarrow> bool" where
  "entry_ok cm p =
     (key (snd p) = fst p
      \<and> filePath (snd p) = getFilePath cm (fst p) (m_format (metadata (snd p)))
      \<and> CHR ''.'' \<notin> set (m_format (metadata (snd p)))
      \<and> 0 \<le> m_size (metadata (snd p)))"

text \<open>The index invariant: keys are distinct and every entry is as above.\<close>

definition cache_inv :: "CacheManager \<Rightarrow> bool" where
  "cache_inv cm = (distinct (map fst (cache cm)) \<and> list_all (entry_ok cm) (cache cm))"

text \<open>The manager is in order: the index invariant holds and the total is within the limit.\<close>

definition cache_ok :: "CacheManager \<Rightarrow> bool" where
  "cache_ok cm = (cache_inv cm \<and> 0 \<le> maxCacheSize cm \<and> totalSize cm \<le> maxCacheSize cm)"

text \<open>
  The managers that calls of the public operations produce, each call running
  from its start to its end before the next begins, from a new manager whose
  size limit is not negative.
\<close>

inductive cache_reachable :: "(NormalizedParams \<Rightarrow> string) \<Rightarrow> CacheManager \<Rightarrow> bool" for H where
    created: "0 \<le> mx \<Longrightarrow> cache_reachable H (newCacheManager dir mx age d)"
  | after_set: "cache_reachable H cm \<Longrightarrow> cache_reachable H (cm_set H cm u ps buf tc ta io)"
  | after_get: "cache_reachable H cm \<Longrightarrow> cache_reachable H (snd (cm_get H cm u ps now io))"
  | after_cleanup: "cache_reachable H cm \<Longrightarrow> cache_reachable H (cm_cleanup cm now io)"
  | after_clear: "cache_reachable H cm \<Longrightarrow> cache_reachable H (cm_clear cm io)"

text \<open>
  The entries a size enforcement removed, given the manager before and after
  it: as many entries as the index lost, taken from the front of the entries
  sorted by last access (a stable sort, oldest first).
\<close>

definition evicted :: "CacheManager \<Rightarrow> CacheManager \<Rightarrow> CacheEntry list" where
  "evicted c c' =
     take (length (cache c) - length (cache c'))
       (sort_key (\<lambda>entry. lastAccessed (metadata entry)) (map snd (cache c)))"

text \<open>
  The manager inside \<open>set\<close> once the file is written and the entry is
  registered, before the size is enforced.
\<close>

definition cm_stored :: "(NormalizedParams \<Rightarrow> string) \<Rightarrow> CacheManager \<Rightarrow> string \<Rightarrow> ScreenshotParams
    \<Rightarrow> buffer \<Rightarrow> int \<Rightarrow> int \<Rightarrow> CacheManager" where
  "cm_stored H cm u ps buf tc ta =
     (let k = generateCacheKey H u ps;
          fmt = format_or_png ps;
          path = getFilePath cm k fmt;
          entry = \<lparr>key = k, filePath = path,
                    metadata = \<lparr>m_url = u, m_params = ps, m_format = fmt,
                                createdAt = tc, lastAccessed = ta, m_size = int (length buf)\<rparr>\<rparr>
      in cm\<lparr>disk := (disk cm)(path \<mapsto> buf), cache := AList.update k entry (cache cm)\<rparr>)"

text \<open>The entries the eviction loop deletes from a sorted snapshot, in order.\<close>

fun evict_prefix :: "int \<Rightarrow> CacheEntry list \<Rightarrow> int \<Rightarrow> CacheEntry list" where
  "evict_prefix mx [] cur = []"
| "evict_prefix mx (e # es) cur =
     (if within_margin cur mx then [] else e # evict_prefix mx es (cur - m_size (metadata e)))"

abbreviation (input) esize :: "CacheEntry \<Rightarrow> int" where
  "esize e \<equiv> m_size (metadata e)"

section \<open>Notions used to state the scheduler properties\<close>

text \<open>
  The invariant of the queue object: job identifiers are distinct, queued
  identifiers are distinct and belong to pending jobs, an iteration is under
  way only while the loop is marked active, a job has a completion time
  exactly when its status is terminal, and the job of the iteration under way
  is in the table, is processing and is not queued.
\<close>

definition queue_inv :: "JobQueue \<Rightarrow> bool" where
  "queue_inv q =
     (distinct (map fst (jobs q))
      \<and> distinct (processingQueue q)
      \<and> (current q \<noteq> None \<longrightarrow> isProcessing q)
      \<and> (\<forall>i\<in>set (processingQueue q). \<exists>j. map_of (jobs q) i = Some j \<and> status j = Pending)
      \<and> (\<forall>i j. map_of (jobs q) i = Some j \<longrightarrow> (completedAt j \<noteq> None) = terminal (status j))
      \<and> (case current q of
            None \<Rightarrow> True
          | Some (i, j) \<Rightarrow> map_of (jobs q) i = Some j \<and> status j = Processing
                           \<and> i \<notin> set (processingQueue q)))"

text \<open>What a step may do to one job: leave it, dequeue it, or finish it.\<close>

definition job_move :: "JobQueue \<Rightarrow> JobQueue \<Rightarrow> string \<Rightarrow> ScreenshotJob \<Rightarrow> ScreenshotJob \<Rightarrow> bool" where
  "job_move q q' i j j' =
     (j' = j
      \<or> (status j = Pending \<and> j' = j\<lparr>status := Processing\<rparr> \<and> i \<in> set (processingQueue q)
          \<and> i \<notin> set (processingQueue q') \<and> current q' = Some (i, j'))
      \<or> (status j = Processing \<and> current q = Some (i, j) \<and> terminal (status j')
          \<and> completedAt j = None \<and> completedAt j' \<noteq> None))"

text \<open>What a step may do to the job table as a whole.\<close>

definition step_ok :: "JobQueue \<Rightarrow> JobQueue \<Rightarrow> bool" where
  "step_ok q q' =
     ((\<forall>i j. map_of (jobs q) i = Some j \<longrightarrow>
         (case map_of (jobs q') i of
            None \<Rightarrow> terminal (status j)
          | Some j' \<Rightarrow> job_move q q' i j j'))
      \<and> (\<forall>i j'. map_of (jobs q) i = None \<longrightarrow> map_of (jobs q') i = Some j' \<longrightarrow>
           completedAt j' = None
           \<and> (status j' = Pending \<or> status j' = Processing \<and> current q' = Some (i, j'))))"

section \<open>Concrete states used to exercise the theorems\<close>

text \<open>A limiter whose only client, the one without headers, has used its budget.\<close>

definition full_limiter :: RateLimiter where
  "full_limiter = rateLimiter\<lparr>requests := [(''unknown'', \<lparr>count = 10, resetTime = 61000\<rparr>)]\<rparr>"

text \<open>A second client, known by a header, and a minute in which both call and the sweep runs.\<close>

definition other_client :: request where
  "other_client = [(''x-real-ip'', ''10.0.0.7'')]"

definition busy_minute :: "rl_event list" where
  "busy_minute =
     [Check [] 2000, Check other_client 2000, Check [] 2000, Check [] 2000, Sweep 3000,
      Check [] 4000, Check other_client 4000, Check [] 4000, Check [] 4000, Check [] 4000,
      Check [] 5000, Check [] 5000, Check other_client 6000, Check [] 61000]"

text \<open>
  A stand-in for the digest that keeps the fields apart: the URL, the mode,
  the viewport and the format one after another.
\<close>

definition demo_digest :: "NormalizedParams \<Rightarrow> string" where
  "demo_digest np =
     n_url np @ (if n_fullPage np then ''|full|'' else ''|view|'')
       @ decimal (n_width np) @ ''x'' @ decimal (n_height np) @ ''|'' @ n_format np"

definition demo_params :: ScreenshotParams where
  "demo_params = \<lparr>url = ''https://example.com'', fullPage = False, width = 1280, height = 800,
                   format = Png, delay = 0\<rparr>"

text \<open>What the URL parser gives on three inputs; it throws on any other.\<close>

definition demo_URL :: "string \<Rightarrow> ParsedURL option" where
  "demo_URL u =
     (if u = ''ftp://internal'' then Some \<lparr>protocol = ''ftp:'', hostname = ''internal''\<rparr>
      else if u = ''http://127.0.0.1'' then Some \<lparr>protocol = ''http:'', hostname = ''127.0.0.1''\<rparr>
      else if u = ''https://example.com'' then Some \<lparr>protocol = ''https:'', hostname = ''example.com''\<rparr>
      else None)"

text \<open>A request body with the url field only.\<close>

definition raw_of_url :: "string \<Rightarrow> RawParams" where
  "raw_of_url u = \<lparr>raw_url = Some u, raw_fullPage = None, raw_width = None, raw_height = None,
                    raw_format = None, raw_delay = None\<rparr>"

text \<open>A file system that rejects nothing, and one where every unlink fails.\<close>

definition no_faults :: io_faults where
  "no_faults = \<lparr>writeFile_fails = False, stat_fails = False, readFile_fails = False,
                 unlink_fails = (\<lambda>path. False)\<rparr>"

text \<open>
  A manager with the default limits after one \<open>set\<close> of a four-byte image at
  time 1000, and the key and the entry that call leaves.
\<close>

definition demo_cache :: CacheManager where
  "demo_cache =
     cm_set demo_digest (newCacheManager ''/tmp/c'' (100 * 1024 * 1024) (24 * 60 * 60 * 1000) Map.empty)
       ''https://example.com'' demo_params [137, 80, 78, 71] 1000 1000 no_faults"

definition demo_key :: string where
  "demo_key = ''https://example.com|view|1280x800|png''"

definition unlink_broken :: io_faults where
  "unlink_broken = no_faults\<lparr>unlink_fails := (\<lambda>path. True)\<rparr>"

definition demo_entry :: CacheEntry where
  "demo_entry =
     \<lparr>key = demo_key, filePath = ''/tmp/c/'' @ demo_key @ ''.png'',
      metadata = \<lparr>m_url = ''https://example.com'', m_params = demo_params, m_format = ''png'',
                  createdAt = 1000, lastAccessed = 1000, m_size = 4\<rparr>\<rparr>"

text \<open>
  The queue after one accepted request on an idle scheduler, the identifier
  that request got, and the job as the queue then holds it.
\<close>

definition demo_queue :: JobQueue where
  "demo_queue = snd (createJob demo_URL newJobQueue (raw_of_url ''https://example.com'')
                       1700000000000 ''k3j9x0a1b'' 1700000000000)"

definition demo_id :: string where
  "demo_id = ''job_1700000000000_k3j9x0a1b''"


definition demo_job :: ScreenshotJob where
  "demo_job = \<lparr>job_id = demo_id, status = Processing, params = demo_params, result = None,
                error = None, job_createdAt = 1700000000000, completedAt = None\<rparr>"

text \<open>Stand-ins for the two encoders.\<close>

definition demo_toISO :: "int \<Rightarrow> string" where
  "demo_toISO t = decimal t"

definition demo_b64 :: "buffer \<Rightarrow> string" where
  "demo_b64 buf = map (\<lambda>b. char_of (unat b)) buf"

definition empty_cache :: CacheManager where
  "empty_cache = newCacheManager ''/tmp/c'' (100 * 1024 * 1024) (24 * 60 * 60 * 1000) Map.empty"

text \<open>An iteration during which every capture times out.\<close>

definition failing_env :: job_env where
  "failing_env =
     \<lparr>t_get = 1700000000001, io_get = no_faults,
      capture = (\<lambda>k. Inl (Error ''Navigation timeout of 30000 ms exceeded'')),
      t_set_created = 1700000000002, t_set_accessed = 1700000000002, io_set = no_faults,
      t_stamp = 1700000064003, t_done = 1700000064003\<rparr>"

text \<open>
  A manager with a limit of ten bytes that holds two four-byte images, stored
  at times 1000 and 2000.
\<close>

definition two_cached :: CacheManager where
  "two_cached =
     cm_set demo_digest
       (cm_set demo_digest (newCacheManager ''/tmp/c'' 10 (24 * 60 * 60 * 1000) Map.empty)
          ''https://a.example'' demo_params [1, 2, 3, 4] 1000 1000 no_faults)
       ''https://b.example'' demo_params [5, 6, 7, 8] 2000 2000 no_faults"



text \<open>The job of the example queue after three failed captures.\<close>

definition failed_job :: ScreenshotJob where
  "failed_job = demo_job\<lparr>status := Failed, error := Some ''Navigation timeout of 30000 ms exceeded'',
                         completedAt := Some 1700000064003\<rparr>"

section \<open>Properties of the rate limiter\<close>

lemma checkLimit_fresh:
  assumes "case map_of (requests rl) (getClientIP req) of None \<Rightarrow> True | Some e \<Rightarrow> now > resetTime e"
  shows "checkLimit rl req now =
     (\<lparr>allowed = True, remaining = maxRequests rl - 1, res_resetTime = now + windowMs rl\<rparr>,
      rl\<lparr>requests := AList.update (getClientIP req)
                 \<lparr>count = 1, resetTime = now + windowMs rl\<rparr> (requests rl)\<rparr>)"
  using assms by (cases "map_of (requests rl) (getClientIP req)") (simp_all add: checkLimit_def Let_def)

lemma checkLimit_denied:
  assumes "map_of (requests rl) (getClientIP req) = Some entry"
    and "\<not> now > resetTime entry"
    and "count entry \<ge> maxRequests rl"
  shows "checkLimit rl req now =
     (\<lparr>allowed = False, remaining = 0, res_resetTime = resetTime entry\<rparr>, rl)"
  using assms by (simp add: checkLimit_def Let_def)

lemma checkLimit_counted:
  assumes "map_of (requests rl) (getClientIP req) = Some entry"
    and "\<not> now > resetTime entry"
    and "count entry < maxRequests rl"
  shows "checkLimit rl req now =
     (\<lparr>allowed = True, remaining = maxRequests rl - (count entry + 1), res_resetTime = resetTime entry\<rparr>,
      rl\<lparr>requests := AList.update (getClientIP req)
                   (entry\<lparr>count := count entry + 1\<rparr>) (requests rl)\<rparr>)"
  using assms by (simp add: checkLimit_def Let_def)

subsection \<open>What a call or a sweep leaves alone\<close>

lemma checkLimit_fields:
  "maxRequests (snd (checkLimit rl req now)) = maxRequests rl"
  "windowMs (snd (checkLimit rl req now)) = windowMs rl"
  by (simp_all add: checkLimit_def Let_def split: option.splits)

lemma checkLimit_other_client:
  assumes "getClientIP req \<noteq> a"
  shows "map_of (requests (snd (checkLimit rl req now))) a = map_of (requests rl) a"
  using assms by (simp add: checkLimit_def Let_def update_conv' split: option.splits)

lemma checkLimit_distinct:
  assumes "distinct (map fst (requests rl))"
  shows "distinct (map fst (requests (snd (checkLimit rl req now))))"
  using assms by (simp add: checkLimit_def Let_def distinct_update split: option.splits)

lemma rl_cleanup_fields:
  "maxRequests (rl_cleanup rl now) = maxRequests rl"
  "windowMs (rl_cleanup rl now) = windowMs rl"
  by (simp_all add: rl_cleanup_def)

lemma rl_cleanup_distinct:
  assumes "distinct (map fst (requests rl))"
  shows "distinct (map fst (requests (rl_cleanup rl now)))"
  using assms by (simp add: rl_cleanup_def distinct_map_filter)

lemma map_of_filter_kept:
  assumes "map_of xs a = Some e" and "P (a, e)"
  shows "map_of (filter P xs) a = Some e"
  using assms by (induction xs) (auto split: if_splits)

lemma map_of_filter_dropped:
  assumes "distinct (map fst xs)" and "map_of xs a = Some e" and "\<not> P (a, e)"
  shows "map_of (filter P xs) a = None"
proof -
  have "\<And>v. (a, v) \<in> set xs \<Longrightarrow> v = e"
    using assms(1,2) by (metis map_of_is_SomeI option.inject)
  then have "a \<notin> fst ` set (filter P xs)"
    using assms(3) by auto
  then show ?thesis by (simp add: map_of_eq_None_iff)
qed

lemma map_of_filter_none:
  assumes "map_of xs a = None"
  shows "map_of (filter P xs) a = None"
proof -
  have "a \<notin> fst ` set xs" using assms by (simp add: map_of_eq_None_iff)
  then have "a \<notin> fst ` set (filter P xs)" by auto
  then show ?thesis by (simp add: map_of_eq_None_iff)
qed

lemma rl_cleanup_live_window:
  assumes "map_of (requests rl) a = Some e" and "\<not> now > resetTime e"
  shows "map_of (requests (rl_cleanup rl now)) a = Some e"
  unfolding rl_cleanup_def using assms
  by (simp add: map_of_filter_kept)

lemma rl_cleanup_any_window:
  assumes "distinct (map fst (requests rl))"
  shows "map_of (requests (rl_cleanup rl now)) a = None
       \<or> map_of (requests (rl_cleanup rl now)) a = map_of (requests rl) a"
proof (cases "map_of (requests rl) a")
  case None
  then show ?thesis unfolding rl_cleanup_def by (simp add: map_of_filter_none)
next
  case (Some e)
  show ?thesis
  proof (cases "now > resetTime e")
    case True
    then have "map_of (requests (rl_cleanup rl now)) a = None"
      unfolding rl_cleanup_def using map_of_filter_dropped[OF assms Some, of "\<lambda>(key, entry). \<not> now > resetTime entry"]
      by simp
    then show ?thesis by simp
  next
    case False
    then show ?thesis using rl_cleanup_live_window[OF Some] Some by simp
  qed
qed

subsection \<open>Runs of calls and sweeps\<close>

lemma rl_run_append:
  "snd (rl_run rl (xs @ ys)) = snd (rl_run (snd (rl_run rl xs)) ys)"
proof (induction xs arbitrary: rl)
  case Nil
  then show ?case by simp
next
  case (Cons ev xs)
  then show ?case by (cases ev) (simp_all add: split_beta)
qed

lemma rl_run_fields:
  "maxRequests (snd (rl_run rl evs)) = maxRequests rl \<and> windowMs (snd (rl_run rl evs)) = windowMs rl"
proof (induction evs arbitrary: rl)
  case Nil
  then show ?case by simp
next
  case (Cons ev evs)
  then show ?case by (cases ev) (simp_all add: split_beta checkLimit_fields rl_cleanup_fields)
qed

lemma rl_run_distinct:
  assumes "distinct (map fst (requests rl))"
  shows "distinct (map fst (requests (snd (rl_run rl evs))))"
  using assms
proof (induction evs arbitrary: rl)
  case Nil
  then show ?case by simp
next
  case (Cons ev evs)
  then show ?case by (cases ev) (simp_all add: split_beta checkLimit_distinct rl_cleanup_distinct)
qed

lemma limiter_after_fields:
  "maxRequests (limiter_after history) = 10" "windowMs (limiter_after history) = 60000"
  "distinct (map fst (requests (limiter_after history)))"
  unfolding limiter_after_def
  using rl_run_fields[of rateLimiter history] rl_run_distinct[of rateLimiter history]
  by (simp_all add: rateLimiter_def newRateLimiter_def)

lemma limiter_after_append:
  "limiter_after (xs @ ys) = snd (rl_run (limiter_after xs) ys)"
  by (simp add: limiter_after_def rl_run_append)

text \<open>
  Inside a window of client \<open>a\<close> with reset time \<open>r\<close> and \<open>n\<close> calls counted:
  whatever the other clients and the sweep do before \<open>r\<close> has passed, the calls
  of \<open>a\<close> are answered by their number in the window.
\<close>

lemma rl_run_in_window:
  assumes "map_of (requests rl) a = Some \<lparr>count = n, resetTime = r\<rparr>"
    and "\<forall>ev\<in>set evs. \<not> ev_time ev > r"
    and "n \<le> maxRequests rl"
  shows "length (answers_to a rl evs) = length (filter (call_of a) evs) \<and>
         (\<forall>k < length (answers_to a rl evs).
             answers_to a rl evs ! k = in_window_answer (maxRequests rl) r (n + int k + 1)) \<and>
         map_of (requests (snd (rl_run rl evs))) a
            = Some \<lparr>count = min (maxRequests rl) (n + int (length (filter (call_of a) evs))),
                    resetTime = r\<rparr>"
  using assms
proof (induction evs arbitrary: rl n)
  case Nil
  then show ?case by (simp add: answers_to_def)
next
  case (Cons ev evs)
  show ?case
  proof (cases ev)
    case (Sweep now)
    have m: "map_of (requests (rl_cleanup rl now)) a = Some \<lparr>count = n, resetTime = r\<rparr>"
      using rl_cleanup_live_window[OF Cons.prems(1), of now] Cons.prems(2) Sweep by simp
    have "n \<le> maxRequests (rl_cleanup rl now)" using Cons.prems(3) by (simp add: rl_cleanup_fields)
    from Cons.IH[OF m _ this] Cons.prems(2)
    show ?thesis using Sweep by (simp add: answers_to_def rl_cleanup_fields)
  next
    case (Check req now)
    let ?rl1 = "snd (checkLimit rl req now)"
    have f: "maxRequests ?rl1 = maxRequests rl" by (simp add: checkLimit_fields)
    have unf: "rl_run rl (ev # evs) =
        ((getClientIP req, fst (checkLimit rl req now)) # fst (rl_run ?rl1 evs), snd (rl_run ?rl1 evs))"
      using Check by (simp add: split_beta)
    show ?thesis
    proof (cases "getClientIP req = a")
      case False
      have m: "map_of (requests ?rl1) a = Some \<lparr>count = n, resetTime = r\<rparr>"
        using checkLimit_other_client[OF False] Cons.prems(1) by simp
      have "n \<le> maxRequests ?rl1" using Cons.prems(3) f by simp
      from Cons.IH[OF m _ this] Cons.prems(2)
      show ?thesis using False Check f unf by (simp add: answers_to_def)
    next
      case True
      have look: "map_of (requests rl) (getClientIP req) = Some \<lparr>count = n, resetTime = r\<rparr>"
        using Cons.prems(1) True by simp
      have t: "\<not> now > r" using Cons.prems(2) Check by simp
      show ?thesis
      proof (cases "n < maxRequests rl")
        case less: True
        have s: "checkLimit rl req now =
            (\<lparr>allowed = True, remaining = maxRequests rl - (n + 1), res_resetTime = r\<rparr>,
             rl\<lparr>requests := AList.update a \<lparr>count = n + 1, resetTime = r\<rparr> (requests rl)\<rparr>)"
          using checkLimit_counted[OF look, of now] t less True by simp
        have m: "map_of (requests ?rl1) a = Some \<lparr>count = n + 1, resetTime = r\<rparr>"
          by (simp add: s update_conv')
        have "n + 1 \<le> maxRequests ?rl1" using less f by simp
        from Cons.IH[OF m _ this] Cons.prems(2)
        have ih: "length (answers_to a ?rl1 evs) = length (filter (call_of a) evs) \<and>
           (\<forall>k < length (answers_to a ?rl1 evs).
              answers_to a ?rl1 evs ! k = in_window_answer (maxRequests rl) r (n + 1 + int k + 1)) \<and>
           map_of (requests (snd (rl_run ?rl1 evs))) a
              = Some \<lparr>count = min (maxRequests rl) (n + 1 + int (length (filter (call_of a) evs))),
                      resetTime = r\<rparr>"
          using f by simp
        have ans: "answers_to a rl (ev # evs) =
            \<lparr>allowed = True, remaining = maxRequests rl - (n + 1), res_resetTime = r\<rparr> # answers_to a ?rl1 evs"
          using True by (simp add: answers_to_def unf s)
        have st: "snd (rl_run rl (ev # evs)) = snd (rl_run ?rl1 evs)"
          by (simp add: unf)
        have cnt: "length (filter (call_of a) (ev # evs)) = Suc (length (filter (call_of a) evs))"
          using True Check by simp
        show ?thesis
          using ih less unfolding ans st cnt
          by (auto simp: nth_Cons in_window_answer_def add.commute add.left_commute split: nat.splits)
      next
        case full: False
        then have eq: "n = maxRequests rl" using Cons.prems(3) by simp
        have s: "checkLimit rl req now = (\<lparr>allowed = False, remaining = 0, res_resetTime = r\<rparr>, rl)"
          using checkLimit_denied[OF look, of now] t eq by simp
        from Cons.IH[OF Cons.prems(1) _ Cons.prems(3)] Cons.prems(2)
        have ih: "length (answers_to a rl evs) = length (filter (call_of a) evs) \<and>
           (\<forall>k < length (answers_to a rl evs).
              answers_to a rl evs ! k = in_window_answer (maxRequests rl) r (n + int k + 1)) \<and>
           map_of (requests (snd (rl_run rl evs))) a
              = Some \<lparr>count = min (maxRequests rl) (n + int (length (filter (call_of a) evs))),
                      resetTime = r\<rparr>"
          by simp
        have ans: "answers_to a rl (ev # evs) =
            \<lparr>allowed = False, remaining = 0, res_resetTime = r\<rparr> # answers_to a rl evs"
          using True by (simp add: answers_to_def unf s)
        have unf': "snd (rl_run rl (ev # evs)) = snd (rl_run rl evs)"
          by (simp add: unf s)
        have cnt: "length (filter (call_of a) (ev # evs)) = Suc (length (filter (call_of a) evs))"
          using True Check by simp
        show ?thesis
          using ih eq unfolding ans unf' cnt
          by (auto simp: nth_Cons in_window_answer_def split: nat.splits)
      qed
    qed
  qed
qed

text \<open>
  While client \<open>a\<close> makes no call, its window is the one it had or, once a sweep
  has dropped it, none.
\<close>

lemma rl_run_without_calls:
  assumes "distinct (map fst (requests rl))"
    and "\<forall>ev\<in>set evs. \<not> call_of a ev"
  shows "map_of (requests (snd (rl_run rl evs))) a = None
       \<or> map_of (requests (snd (rl_run rl evs))) a = map_of (requests rl) a"
  using assms
proof (induction evs arbitrary: rl)
  case Nil
  then show ?case by simp
next
  case (Cons ev evs)
  show ?case
  proof (cases ev)
    case (Sweep now)
    have d: "distinct (map fst (requests (rl_cleanup rl now)))"
      using Cons.prems(1) by (rule rl_cleanup_distinct)
    from Cons.IH[OF d] Cons.prems(2) rl_cleanup_any_window[OF Cons.prems(1), of now a]
    show ?thesis using Sweep by auto
  next
    case (Check req now)
    then have ne: "getClientIP req \<noteq> a" using Cons.prems(2) by simp
    have d: "distinct (map fst (requests (snd (checkLimit rl req now))))"
      using Cons.prems(1) by (rule checkLimit_distinct)
    from Cons.IH[OF d] Cons.prems(2) checkLimit_other_client[OF ne, where rl = rl and now = now]
    show ?thesis using Check by (auto simp: split_beta)
  qed
qed

text \<open>
  Claim C4. Take the exported limiter (at most 10 requests per window of
  60000 ms) after any history of calls and sweeps, and let a call of client \<open>a\<close>
  at time \<open>t0\<close> open a window (the client has no window, or its reset time has
  passed). Let any calls, of this client and of others, and any sweeps follow
  before the reset time \<open>t0 + 60000\<close> has passed. Among the calls of \<open>a\<close>, the
  opening one included, the one with index \<open>k\<close> (from 0) is allowed with
  \<open>remaining = 10 - (k + 1)\<close>, the count being \<open>k + 1\<close>, as long as \<open>k < 10\<close>;
  from the eleventh on the call is denied with \<open>remaining = 0\<close> and the unchanged
  reset time; the stored window keeps its reset time and counts the allowed
  calls. After that, and after whatever other clients and the sweep do next, a
  call of \<open>a\<close> made once the reset time has passed opens a fresh window: count 1,
  reset time \<open>now + 60000\<close>, allowed with \<open>remaining = 9\<close>.
\<close>

theorem fixed_window_ten_per_minute:
  assumes fresh: "case map_of (requests (limiter_after history)) a of
                    None \<Rightarrow> True | Some e \<Rightarrow> t0 > resetTime e"
    and opener: "getClientIP r0 = a"
    and within: "\<forall>ev\<in>set evs. \<not> ev_time ev > t0 + 60000"
    and k: "k < length (answers_to a (limiter_after history) (Check r0 t0 # evs))"
    and others: "\<forall>ev\<in>set evs2. \<not> call_of a ev"
    and again: "getClientIP r1 = a"
    and later: "t1 > t0 + 60000"
  shows "answers_to a (limiter_after history) (Check r0 t0 # evs) ! k =
           (if k < 10 then \<lparr>allowed = True, remaining = 10 - (int k + 1), res_resetTime = t0 + 60000\<rparr>
            else \<lparr>allowed = False, remaining = 0, res_resetTime = t0 + 60000\<rparr>)
       \<and> length (answers_to a (limiter_after history) (Check r0 t0 # evs))
           = 1 + length (filter (call_of a) evs)
       \<and> map_of (requests (limiter_after (history @ Check r0 t0 # evs))) a
           = Some \<lparr>count = min 10 (1 + int (length (filter (call_of a) evs))), resetTime = t0 + 60000\<rparr>
       \<and> fst (checkLimit (limiter_after (history @ Check r0 t0 # evs @ evs2)) r1 t1)
           = \<lparr>allowed = True, remaining = 9, res_resetTime = t1 + 60000\<rparr>
       \<and> map_of (requests (snd (checkLimit (limiter_after (history @ Check r0 t0 # evs @ evs2)) r1 t1))) a
           = Some \<lparr>count = 1, resetTime = t1 + 60000\<rparr>"
proof -
  let ?rl = "limiter_after history"
  let ?n = "length (filter (call_of a) evs)"
  have mx: "maxRequests ?rl = 10" and win: "windowMs ?rl = 60000"
    by (simp_all add: limiter_after_fields)
  let ?rl1 = "?rl\<lparr>requests := AList.update a \<lparr>count = 1, resetTime = t0 + 60000\<rparr> (requests ?rl)\<rparr>"
  have first: "checkLimit ?rl r0 t0 =
      (\<lparr>allowed = True, remaining = 9, res_resetTime = t0 + 60000\<rparr>, ?rl1)"
    using checkLimit_fresh[where rl = ?rl and req = r0 and now = t0] fresh opener mx win by simp
  have m1: "map_of (requests ?rl1) a = Some \<lparr>count = 1, resetTime = t0 + 60000\<rparr>"
    by (simp add: update_conv')
  have mx1: "maxRequests ?rl1 = 10" using mx by simp
  have rest: "length (answers_to a ?rl1 evs) = ?n \<and>
         (\<forall>k < length (answers_to a ?rl1 evs).
             answers_to a ?rl1 evs ! k = in_window_answer 10 (t0 + 60000) (1 + int k + 1)) \<and>
         map_of (requests (snd (rl_run ?rl1 evs))) a
            = Some \<lparr>count = min 10 (1 + int ?n), resetTime = t0 + 60000\<rparr>"
    using rl_run_in_window[OF m1, of evs] within mx1 by simp
  have ans: "answers_to a ?rl (Check r0 t0 # evs) =
      \<lparr>allowed = True, remaining = 9, res_resetTime = t0 + 60000\<rparr> # answers_to a ?rl1 evs"
    using opener by (simp add: answers_to_def first split_beta)
  have st: "snd (rl_run ?rl (Check r0 t0 # evs)) = snd (rl_run ?rl1 evs)"
    by (simp add: first split_beta)
  have c1: "answers_to a ?rl (Check r0 t0 # evs) ! k =
           (if k < 10 then \<lparr>allowed = True, remaining = 10 - (int k + 1), res_resetTime = t0 + 60000\<rparr>
            else \<lparr>allowed = False, remaining = 0, res_resetTime = t0 + 60000\<rparr>)"
  proof (cases k)
    case 0
    then show ?thesis by (simp add: ans)
  next
    case (Suc k')
    then have "k' < length (answers_to a ?rl1 evs)" using k by (simp add: ans)
    then have "answers_to a ?rl1 evs ! k' = in_window_answer 10 (t0 + 60000) (1 + int k' + 1)"
      using rest by simp
    then show ?thesis using Suc by (simp add: ans in_window_answer_def)
  qed
  have c2: "length (answers_to a ?rl (Check r0 t0 # evs)) = 1 + ?n"
    using rest by (simp add: ans)
  let ?rl2 = "limiter_after (history @ Check r0 t0 # evs)"
  have rl2: "?rl2 = snd (rl_run ?rl1 evs)"
    unfolding limiter_after_append st ..
  have c3: "map_of (requests ?rl2) a = Some \<lparr>count = min 10 (1 + int ?n), resetTime = t0 + 60000\<rparr>"
    using rest by (simp add: rl2)
  let ?rl3 = "limiter_after (history @ Check r0 t0 # evs @ evs2)"
  have rl3: "?rl3 = snd (rl_run ?rl2 evs2)"
    using limiter_after_append[of "history @ Check r0 t0 # evs" evs2] by simp
  have "map_of (requests ?rl3) a = None \<or> map_of (requests ?rl3) a = map_of (requests ?rl2) a"
    unfolding rl3 by (rule rl_run_without_calls[OF limiter_after_fields(3) others])
  then have fresh3: "case map_of (requests ?rl3) (getClientIP r1) of
                       None \<Rightarrow> True | Some e \<Rightarrow> t1 > resetTime e"
    using c3 later again by auto
  have "checkLimit ?rl3 r1 t1 =
     (\<lparr>allowed = True, remaining = 9, res_resetTime = t1 + 60000\<rparr>,
      ?rl3\<lparr>requests := AList.update a \<lparr>count = 1, resetTime = t1 + 60000\<rparr> (requests ?rl3)\<rparr>)"
    using checkLimit_fresh[OF fresh3] again by (simp add: limiter_after_fields)
  then have c4: "fst (checkLimit ?rl3 r1 t1) = \<lparr>allowed = True, remaining = 9, res_resetTime = t1 + 60000\<rparr>"
    and c5: "map_of (requests (snd (checkLimit ?rl3 r1 t1))) a = Some \<lparr>count = 1, resetTime = t1 + 60000\<rparr>"
    by (simp_all add: update_conv')
  from c1 c2 c3 c4 c5 show ?thesis by blast
qed

theorem fixed_window_ten_per_minute_witness:
  "answers_to ''unknown'' (limiter_after [Check other_client 500]) (Check [] 1000 # busy_minute) ! 10
     = \<lparr>allowed = False, remaining = 0, res_resetTime = 61000\<rparr>
   \<and> length (answers_to ''unknown'' (limiter_after [Check other_client 500]) (Check [] 1000 # busy_minute)) = 11
   \<and> fst (checkLimit (limiter_after ([Check other_client 500] @ Check [] 1000 # busy_minute
             @ [Check other_client 61001, Sweep 61001])) [] 61002)
     = \<lparr>allowed = True, remaining = 9, res_resetTime = 121002\<rparr>"
proof -
  have h1: "case map_of (requests (limiter_after [Check other_client 500])) ''unknown'' of
              None \<Rightarrow> True | Some e \<Rightarrow> 1000 > resetTime e"
    by code_simp
  have h2: "getClientIP [] = ''unknown''" by code_simp
  have h3: "\<forall>ev\<in>set busy_minute. \<not> ev_time ev > 1000 + 60000" by code_simp
  have h4: "10 < length (answers_to ''unknown'' (limiter_after [Check other_client 500])
                 (Check [] 1000 # busy_minute))"
    by code_simp
  have h5: "\<forall>ev\<in>set [Check other_client 61001, Sweep 61001]. \<not> call_of ''unknown'' ev" by code_simp
  have h6: "(61002::int) > 1000 + 60000" by simp
  have n: "length (filter (call_of ''unknown'') busy_minute) = 10" by code_simp
  from fixed_window_ten_per_minute[OF h1 h2 h3 h4 h5 h2 h6]
  show ?thesis by (simp add: n)
qed


text \<open>
  Claim C10. A denied check changes nothing: when the client's window has not
  expired and its count has reached the maximum, \<open>checkLimit\<close> answers with a
  denial (zero remaining, the stored reset time) and returns the limiter
  exactly as it was, for every client.
\<close>

theorem denied_check_mutates_nothing:
  assumes "map_of (requests rl) (getClientIP req) = Some entry"
    and "\<not> now > resetTime entry"
    and "count entry \<ge> maxRequests rl"
  shows "checkLimit rl req now =
     (\<lparr>allowed = False, remaining = 0, res_resetTime = resetTime entry\<rparr>, rl)"
  using assms by (simp add: checkLimit_def Let_def)

theorem denied_check_mutates_nothing_witness:
  "map_of (requests full_limiter) (getClientIP []) = Some \<lparr>count = 10, resetTime = 61000\<rparr>
   \<and> checkLimit full_limiter [] 61000 =
     (\<lparr>allowed = False, remaining = 0, res_resetTime = 61000\<rparr>, full_limiter)"
  using denied_check_mutates_nothing [where rl = full_limiter and req = "[]"
      and entry = "\<lparr>count = 10, resetTime = 61000\<rparr>" and now = 61000]
  by (simp add: full_limiter_def rateLimiter_def newRateLimiter_def getClientIP_def
      headers_get_def truthy_str_def)

section \<open>Properties of the cache key\<close>

text \<open>
  Claim C2. Two requests with the same normal form have the same cache key:
  when the URLs agree after lower-casing and trimming, the full-page flags,
  the formats and the delays agree, and either the full-page flag is set (width
  and height are then replaced by 0) or widths and heights agree, then
  \<open>generateCacheKey\<close> gives the same key, whatever the digest function is. The
  key is a function of its arguments alone and is defined on all of them.
\<close>

theorem fingerprint_of_equal_normal_forms:
  assumes "trim (toLowerCase u1) = trim (toLowerCase u2)"
    and "fullPage p1 = fullPage p2"
    and "format p1 = format p2"
    and "delay p1 = delay p2"
    and "fullPage p1 \<or> (width p1 = width p2 \<and> height p1 = height p2)"
  shows "generateCacheKey H u1 p1 = generateCacheKey H u2 p2"
  using assms by (auto simp: generateCacheKey_def normalizedParams_def format_or_png_def)

theorem fingerprint_of_equal_normal_forms_witness:
  "trim (toLowerCase ''  HTTPS://Example.COM/a '') = trim (toLowerCase ''https://example.com/a'')
   \<and> generateCacheKey demo_digest ''  HTTPS://Example.COM/a '' (demo_params\<lparr>fullPage := True\<rparr>)
     = generateCacheKey demo_digest ''https://example.com/a''
         (demo_params\<lparr>fullPage := True, width := 640, height := 480\<rparr>)"
proof -
  have h: "trim (toLowerCase ''  HTTPS://Example.COM/a '') = trim (toLowerCase ''https://example.com/a'')"
    by code_simp
  show ?thesis
    using h fingerprint_of_equal_normal_forms [OF h, where ?p1.0 = "demo_params\<lparr>fullPage := True\<rparr>"
      and ?p2.0 = "demo_params\<lparr>fullPage := True, width := 640, height := 480\<rparr>"
      and H = demo_digest]
    by (simp add: demo_params_def)
qed

section \<open>Properties of the cache\<close>

lemma cm_delete_removes: "map_of (cache (cm_delete cm k io)) k = None"
  by (simp add: cm_delete_def delete_conv' split: option.splits)

text \<open>
  Claim C6. \<open>get\<close> answers absent in exactly three situations: the index has
  no entry for the key, the entry is older than the maximum age, or the file
  of the entry cannot be read. Without an entry nothing changes. In the other
  two situations the entry is gone from the index afterwards, whatever the
  file system does to the unlink; so an entry older than the maximum age is
  never returned.
\<close>

theorem get_absent_in_three_cases:
  "(fst (cm_get H cm u ps now io) = None) =
     (case map_of (cache cm) (generateCacheKey H u ps) of
        None \<Rightarrow> True
      | Some e \<Rightarrow> now - createdAt (metadata e) > maxCacheAge cm
                  \<or> fs_readFile (readFile_fails io) (disk cm) (filePath e) = None)
   \<and> (map_of (cache cm) (generateCacheKey H u ps) = None \<longrightarrow> snd (cm_get H cm u ps now io) = cm)
   \<and> (\<forall>e. map_of (cache cm) (generateCacheKey H u ps) = Some e
          \<and> (now - createdAt (metadata e) > maxCacheAge cm
              \<or> fs_readFile (readFile_fails io) (disk cm) (filePath e) = None)
        \<longrightarrow> fst (cm_get H cm u ps now io) = None
            \<and> map_of (cache (snd (cm_get H cm u ps now io))) (generateCacheKey H u ps) = None)"
proof (cases "map_of (cache cm) (generateCacheKey H u ps)")
  case None
  then show ?thesis by (simp add: cm_get_def)
next
  case (Some e)
  show ?thesis
  proof (cases "now - createdAt (metadata e) > maxCacheAge cm")
    case True
    then show ?thesis using Some by (simp add: cm_get_def cm_delete_removes)
  next
    case False
    show ?thesis
    proof (cases "fs_readFile (readFile_fails io) (disk cm) (filePath e)")
      case None
      then show ?thesis using Some False by (simp add: cm_get_def Let_def cm_delete_removes)
    next
      case (Some buf)
      then show ?thesis using \<open>map_of (cache cm) (generateCacheKey H u ps) = Some e\<close> False
        by (simp add: cm_get_def Let_def)
    qed
  qed
qed


theorem get_absent_in_three_cases_witness:
  "map_of (cache demo_cache) (generateCacheKey demo_digest ''https://example.com'' demo_params)
     = Some demo_entry
   \<and> 86401001 - createdAt (metadata demo_entry) > maxCacheAge demo_cache
   \<and> fst (cm_get demo_digest demo_cache ''https://example.com'' demo_params 86401001 unlink_broken) = None
   \<and> map_of (cache (snd (cm_get demo_digest demo_cache ''https://example.com'' demo_params 86401001
          unlink_broken))) (generateCacheKey demo_digest ''https://example.com'' demo_params) = None"
proof -
  have h1: "map_of (cache demo_cache) (generateCacheKey demo_digest ''https://example.com'' demo_params)
     = Some demo_entry"
    by code_simp
  have h2: "86401001 - createdAt (metadata demo_entry) > maxCacheAge demo_cache"
    by code_simp
  show ?thesis
    using h1 h2 get_absent_in_three_cases [where H = demo_digest and cm = demo_cache
        and u = "''https://example.com''" and ps = demo_params and now = 86401001
        and io = unlink_broken]
    by simp
qed

subsection \<open>The eviction threshold in double precision\<close>

lemma excess_bits_lower: "0 < excess_bits p \<Longrightarrow> 2 ^ (52 + excess_bits p) \<le> p"
proof (induction p rule: excess_bits.induct)
  case (1 p)
  show ?case
  proof (cases "p < 2 ^ 53")
    case True
    then show ?thesis using 1(2) by (simp add: excess_bits.simps)
  next
    case False
    then have e: "excess_bits p = Suc (excess_bits (p div 2))" by (simp add: excess_bits.simps)
    show ?thesis
    proof (cases "excess_bits (p div 2)")
      case 0
      then show ?thesis using False e by simp
    next
      case (Suc m)
      then have "2 ^ (52 + excess_bits (p div 2)) \<le> p div 2" using 1(1)[OF False] by simp
      then have "2 * 2 ^ (52 + excess_bits (p div 2)) \<le> 2 * (p div 2)" by simp
      also have "\<dots> \<le> p" by simp
      finally have "2 * 2 ^ (52 + excess_bits (p div 2)) \<le> p" .
      moreover have "52 + excess_bits p = Suc (52 + excess_bits (p div 2))" by (simp add: e)
      ultimately show ?thesis by (simp only: power_Suc)
    qed
  qed
qed

lemma round_half_even_bounds:
  "p div 2 ^ s \<le> round_half_even p s" "round_half_even p s \<le> p div 2 ^ s + 1"
  by (simp_all add: round_half_even_def Let_def)

lemma round_half_even_exact: "round_half_even p 0 = p"
  by (simp add: round_half_even_def)

lemma round_half_even_nonneg: "0 \<le> p \<Longrightarrow> 0 \<le> round_half_even p s"
  using round_half_even_bounds(1)[of p s] pos_imp_zdiv_nonneg_iff[of "2 ^ s" p] by simp

text \<open>The rounded product as a multiple of the unit in the last place, and how far it is from the product.\<close>

lemma rounded_upper: "0 \<le> p \<Longrightarrow> round_half_even p s * 2 ^ s \<le> p + 2 ^ s"
proof -
  assume "0 \<le> p"
  have "round_half_even p s * 2 ^ s \<le> (p div 2 ^ s + 1) * 2 ^ s"
    using round_half_even_bounds(2)[of p s] by (simp add: mult_right_mono)
  also have "\<dots> = (p div 2 ^ s) * 2 ^ s + 2 ^ s" by (simp add: algebra_simps)
  also have "\<dots> \<le> p + 2 ^ s"
  proof -
    have "0 \<le> p mod 2 ^ s" by simp
    then show ?thesis using div_mult_mod_eq[of p "2 ^ s"] by linarith
  qed
  finally show ?thesis .
qed


lemma le_scaled: "((of_int c :: rat) \<le> of_int M / 2 ^ 52) = (c * 2 ^ 52 \<le> M)"
proof -
  have "((of_int c :: rat) \<le> of_int M / 2 ^ 52) = ((of_int c :: rat) * 2 ^ 52 \<le> of_int M)"
    by (simp add: pos_le_divide_eq)
  also have "\<dots> = ((of_int (c * 2 ^ 52) :: rat) \<le> of_int M)" by simp
  also have "\<dots> = (c * 2 ^ 52 \<le> M)" by (simp only: of_int_le_iff)
  finally show ?thesis .
qed

lemma times_0_8_nonneg_arg:
  "0 \<le> x \<Longrightarrow> times_0_8 x =
     of_int (round_half_even (x * point8) (excess_bits (x * point8)) * 2 ^ excess_bits (x * point8)) / 2 ^ 52"
  by (cases "x = 0") (simp_all add: times_0_8_def Let_def round_half_even_def excess_bits.simps[of 0])

text \<open>Four fifths, rounded, of a limit that is not negative is not above the limit.\<close>

lemma within_margin_le_max:
  assumes "0 \<le> mx" and "within_margin c mx"
  shows "c \<le> mx"
proof -
  define p where "p = mx * point8"
  define s where "s = excess_bits p"
  define a :: int where "a = 2 ^ s"
  define M where "M = round_half_even p s * a"
  have p0: "0 \<le> p" using assms(1) by (simp add: p_def point8_def)
  have c: "c * 2 ^ 52 \<le> M"
    using assms(2) unfolding within_margin_def times_0_8_nonneg_arg[OF assms(1)] le_scaled
    by (simp add: M_def a_def s_def p_def)
  have c': "c * 4503599627370496 \<le> M"
  proof -
    have "(2::int) ^ 52 = 4503599627370496" by simp
    then show ?thesis using c by (simp only:)
  qed
  have up: "M \<le> p + a" unfolding M_def a_def using rounded_upper[OF p0] .
  have a1: "s = 0 \<Longrightarrow> a = 1" by (simp add: a_def)
  have a2: "0 < s \<Longrightarrow> 2 ^ 52 * a \<le> p"
    using excess_bits_lower[of p] by (simp add: s_def a_def power_add)
  have pe: "p = mx * 3602879701896397" by (simp add: p_def point8_def)
  have M0: "s = 0 \<Longrightarrow> M = p" by (simp add: M_def a_def round_half_even_exact)
  show ?thesis
  proof (cases "s = 0")
    case True
    then have "M = p" by (rule M0)
    with c' pe have "c * 4503599627370496 \<le> mx * 3602879701896397" by (simp only:)
    then show ?thesis using assms(1) by linarith
  next
    case False
    then have "4503599627370496 * a \<le> p" using a2 by simp
    moreover have "c * 4503599627370496 \<le> p + a" using c' up by linarith
    ultimately show ?thesis using pe assms(1) by linarith
  qed
qed



text \<open>Above that, not: a limit of \<open>2^52 + 1\<close> bytes lets through one byte more than four fifths.\<close>

lemma within_margin_large:
  "within_margin 3602879701896398 (2 ^ 52 + 1) \<and> \<not> 5 * 3602879701896398 \<le> 4 * ((2::int) ^ 52 + 1)"
  by code_simp


lemma within_margin_zero: "0 \<le> mx \<Longrightarrow> within_margin 0 mx"
  unfolding within_margin_def times_0_8_nonneg_arg le_scaled
  using round_half_even_nonneg[of "mx * point8" "excess_bits (mx * point8)"]
  by (simp add: point8_def)

subsection \<open>What deletion and the eviction loop do to the index\<close>

lemma cm_delete_cache: "cache (cm_delete cm k io) = AList.delete k (cache cm)"
proof (cases "map_of (cache cm) k")
  case None
  then have "k \<notin> fst ` set (cache cm)" by (simp add: map_of_eq_None_iff)
  then show ?thesis using None by (simp add: cm_delete_def)
next
  case (Some e)
  then show ?thesis by (simp add: cm_delete_def split: option.splits)
qed

lemma cm_delete_fields:
  "maxCacheSize (cm_delete cm k io) = maxCacheSize cm"
  "maxCacheAge (cm_delete cm k io) = maxCacheAge cm"
  "cacheDir (cm_delete cm k io) = cacheDir cm"
  by (simp_all add: cm_delete_def split: option.splits)

lemma cm_delete_disk_other:
  assumes "\<And>e. map_of (cache cm) k = Some e \<Longrightarrow> filePath e \<noteq> p"
  shows "disk (cm_delete cm k io) p = disk cm p"
  using assms by (auto simp: cm_delete_def fs_unlink_def split: option.splits if_splits)

lemma delete_as_filter: "AList.delete k al = filter (\<lambda>p. fst p \<noteq> k) al"
  by (induction al) (auto simp: AList.delete_eq)

lemma enforceSize_loop_cache:
  "cache (enforceSize_loop cm io es cur) =
     filter (\<lambda>p. fst p \<notin> set (map key (evict_prefix (maxCacheSize cm) es cur))) (cache cm)"
proof (induction es arbitrary: cm cur)
  case Nil
  then show ?case by simp
next
  case (Cons e es)
  show ?case
  proof (cases "within_margin cur (maxCacheSize cm)")
    case True
    then show ?thesis by simp
  next
    case False
    then show ?thesis
      using Cons.IH[of "cm_delete cm (key e) io" "cur - m_size (metadata e)"]
      by (simp add: cm_delete_cache cm_delete_fields delete_as_filter conj_commute)
  qed
qed

lemma enforceSize_loop_fields:
  "maxCacheSize (enforceSize_loop cm io es cur) = maxCacheSize cm"
  "maxCacheAge (enforceSize_loop cm io es cur) = maxCacheAge cm"
  "cacheDir (enforceSize_loop cm io es cur) = cacheDir cm"
  by (induction es arbitrary: cm cur) (simp_all add: cm_delete_fields)

lemma evict_prefix_take: "evict_prefix mx es cur = take (length (evict_prefix mx es cur)) es"
  by (induction es arbitrary: cur) auto

lemma evict_prefix_end:
  "within_margin (cur - sum_list (map esize (evict_prefix mx es cur))) mx \<or> evict_prefix mx es cur = es"
proof (induction es arbitrary: cur)
  case Nil
  then show ?case by simp
next
  case (Cons e es)
  show ?case
  proof (cases "within_margin cur mx")
    case True
    then show ?thesis by simp
  next
    case False
    then show ?thesis
      using Cons.IH[of "cur - esize e"] by (auto simp: algebra_simps)
  qed
qed

lemma evict_prefix_needed:
  "m < length (evict_prefix mx es cur) \<Longrightarrow> \<not> within_margin (cur - sum_list (map esize (take m es))) mx"
proof (induction es arbitrary: cur m)
  case Nil
  then show ?case by simp
next
  case (Cons e es)
  show ?case
  proof (cases m)
    case 0
    then show ?thesis using Cons.prems by (auto split: if_splits)
  next
    case (Suc m')
    then have "m' < length (evict_prefix mx es (cur - esize e))" and "\<not> within_margin cur mx"
      using Cons.prems by (auto split: if_splits)
    then have "\<not> within_margin (cur - esize e - sum_list (map esize (take m' es))) mx"
      using Cons.IH by blast
    then show ?thesis using Suc by (simp add: algebra_simps)
  qed
qed


lemma sum_list_insort_key:
  "sum_list (map g (insort_key f x xs)) = (g x :: int) + sum_list (map g xs)"
  by (induction xs) auto

lemma sum_list_sort_key: "sum_list (map g (sort_key f xs)) = (sum_list (map g xs) :: int)"
  by (induction xs) (auto simp: sum_list_insort_key)

lemma sum_without_key:
  assumes "distinct (map fst al)" and "map_of al k = Some e"
  shows "(\<Sum>p\<leftarrow>filter (\<lambda>p. fst p \<noteq> k) al. (g (snd p) :: int)) = (\<Sum>p\<leftarrow>al. g (snd p)) - g e"
  using assms
proof (induction al)
  case Nil
  then show ?case by simp
next
  case (Cons a al)
  show ?case
  proof (cases "fst a = k")
    case True
    then have "snd a = e" using Cons.prems by (cases a) simp
    moreover have "k \<notin> fst ` set al" using True Cons.prems by auto
    then have "filter (\<lambda>p. fst p \<noteq> k) al = al"
      by (induction al) auto
    ultimately show ?thesis using True by simp
  next
    case False
    then have "map_of al k = Some e" using Cons.prems by (cases a) (auto split: if_splits)
    then show ?thesis using Cons False by simp
  qed
qed

lemma map_of_filter_key:
  "map_of (filter (\<lambda>p. Q (fst p)) al) k = (if Q k then map_of al k else None)"
  by (induction al) auto

lemma sum_without_keys:
  assumes "distinct (map fst al)" and "distinct (map key ev)"
    and "\<forall>e\<in>set ev. map_of al (key e) = Some e"
  shows "(\<Sum>p\<leftarrow>filter (\<lambda>p. fst p \<notin> set (map key ev)) al. (g (snd p) :: int))
           = (\<Sum>p\<leftarrow>al. g (snd p)) - sum_list (map g ev)"
  using assms
proof (induction ev arbitrary: al)
  case Nil
  then show ?case by simp
next
  case (Cons e ev)
  let ?al = "filter (\<lambda>p. fst p \<noteq> key e) al"
  have d: "distinct (map fst ?al)" using Cons.prems(1) by (simp add: distinct_map_filter)
  have m: "\<forall>e'\<in>set ev. map_of ?al (key e') = Some e'"
  proof
    fix e' assume e': "e' \<in> set ev"
    have "key e \<notin> key ` set ev" using Cons.prems(2) by simp
    then have "key e' \<noteq> key e" using e' by (metis imageI)
    then show "map_of ?al (key e') = Some e'"
      using Cons.prems(3) e' map_of_filter_key[of "\<lambda>k. k \<noteq> key e" al "key e'"] by simp
  qed
  have "filter (\<lambda>p. fst p \<notin> set (map key (e # ev))) al = filter (\<lambda>p. fst p \<notin> set (map key ev)) ?al"
    by (induction al) auto
  then have "(\<Sum>p\<leftarrow>filter (\<lambda>p. fst p \<notin> set (map key (e # ev))) al. g (snd p))
      = (\<Sum>p\<leftarrow>?al. g (snd p)) - sum_list (map g ev)"
    using Cons.IH[OF d _ m] Cons.prems(2) by simp
  also have "(\<Sum>p\<leftarrow>?al. g (snd p)) = (\<Sum>p\<leftarrow>al. g (snd p)) - g e"
    using sum_without_key[OF Cons.prems(1), of "key e" e g] Cons.prems(3) by simp
  finally show ?case by simp
qed

lemma cache_inv_keys:
  assumes "cache_inv cm"
  shows "map key (map snd (cache cm)) = map fst (cache cm)"
  using assms by (auto simp: cache_inv_def list_all_iff entry_ok_def)

lemma cache_inv_lookup:
  assumes "cache_inv cm" and "e \<in> set (map snd (cache cm))"
  shows "map_of (cache cm) (key e) = Some e"
proof -
  obtain k where "(k, e) \<in> set (cache cm)" using assms(2) by auto
  moreover then have "key e = k" using assms(1) by (auto simp: cache_inv_def list_all_iff entry_ok_def)
  ultimately show ?thesis using assms(1) by (simp add: cache_inv_def)
qed

lemma cache_inv_distinct_entries:
  assumes "cache_inv cm"
  shows "distinct (map key (map snd (cache cm)))"
  unfolding cache_inv_keys[OF assms] using assms by (simp add: cache_inv_def)

lemma distinct_map_sort_key:
  assumes "distinct (map h xs)"
  shows "distinct (map h (sort_key f xs))"
  using assms by (simp add: distinct_map)

lemma distinct_map_take: "distinct (map h xs) \<Longrightarrow> distinct (map h (take n xs))"
  by (simp add: distinct_map distinct_take) (meson inj_on_subset set_take_subset)


lemma length_filter_not_in:
  assumes "distinct xs" and "distinct ev" and "set ev \<subseteq> set xs"
  shows "length (filter (\<lambda>x. x \<notin> set ev) xs) = length xs - length ev"
proof -
  have "length (filter (\<lambda>x. x \<in> set ev) xs) = card ({x. x \<in> set ev} \<inter> set xs)"
    using assms(1) by (rule distinct_length_filter)
  also have "{x. x \<in> set ev} \<inter> set xs = set ev" using assms(3) by auto
  also have "card (set ev) = length ev" using assms(2) by (rule distinct_card)
  finally have "length (filter (\<lambda>x. x \<in> set ev) xs) = length ev" .
  moreover have "length (filter (\<lambda>x. x \<in> set ev) xs) + length (filter (\<lambda>x. \<not> x \<in> set ev) xs) = length xs"
    by (rule sum_length_filter_compl)
  ultimately show ?thesis by simp
qed

lemma entry_ok_cacheDir: "cacheDir cm' = cacheDir cm \<Longrightarrow> entry_ok cm' p = entry_ok cm p"
  by (simp add: entry_ok_def getFilePath_def)

lemma cache_inv_filter:
  assumes "cache_inv cm" and "cacheDir cm' = cacheDir cm" and "cache cm' = filter P (cache cm)"
  shows "cache_inv cm'"
  using assms
  by (auto simp: cache_inv_def list_all_iff distinct_map_filter entry_ok_cacheDir[OF assms(2)])

lemma cache_inv_delete: "cache_inv cm \<Longrightarrow> cache_inv (cm_delete cm k io)"
  by (rule cache_inv_filter[where P = "\<lambda>p. fst p \<noteq> k"])
     (simp_all add: cm_delete_fields cm_delete_cache delete_as_filter)

lemma cache_inv_enforceSize_loop: "cache_inv cm \<Longrightarrow> cache_inv (enforceSize_loop cm io es cur)"
  by (rule cache_inv_filter[where
        P = "\<lambda>p. fst p \<notin> set (map key (evict_prefix (maxCacheSize cm) es cur))"])
     (simp_all add: enforceSize_loop_fields enforceSize_loop_cache)

lemma cache_inv_enforceSize: "cache_inv cm \<Longrightarrow> cache_inv (enforceSize cm io)"
  by (simp add: enforceSize_def cache_inv_enforceSize_loop)

lemma set_update_subset: "set (AList.update k v al) \<subseteq> insert (k, v) (set al)"
  by (induction al) auto

lemma cache_inv_update:
  assumes "cache_inv cm" and "entry_ok cm (k, e)" and "cacheDir cm' = cacheDir cm"
    and "cache cm' = AList.update k e (cache cm)"
  shows "cache_inv cm'"
proof -
  have "distinct (map fst (cache cm'))"
    using assms(1,4) by (simp add: cache_inv_def distinct_update)
  moreover have "\<forall>p\<in>set (cache cm'). entry_ok cm p"
    using assms(1,2,4) set_update_subset[of k e "cache cm"]
    by (auto simp: cache_inv_def list_all_iff)
  ultimately show ?thesis
    by (simp add: cache_inv_def list_all_iff entry_ok_cacheDir[OF assms(3)])
qed

lemma format_or_png_dotless: "CHR ''.'' \<notin> set (format_or_png ps)"
  by (cases "format ps") (simp_all add: format_or_png_def toLowerCase_def lower_char_def)

lemma cache_inv_set: 
  assumes "cache_inv cm"
  shows "cache_inv (cm_set H cm u ps buf tc ta io)"
proof (cases "fs_writeFile (writeFile_fails io) (disk cm)
                (getFilePath cm (generateCacheKey H u ps) (format_or_png ps)) buf")
  case None
  then show ?thesis using assms by (simp add: cm_set_def Let_def)
next
  case (Some d)
  let ?k = "generateCacheKey H u ps"
  let ?path = "getFilePath cm ?k (format_or_png ps)"
  let ?cm1 = "cm\<lparr>disk := d\<rparr>"
  have inv1: "cache_inv ?cm1"
    using assms by (rule cache_inv_filter[where P = "\<lambda>p. True"]) simp_all
  show ?thesis
  proof (cases "fs_stat (stat_fails io) d ?path")
    case None
    then show ?thesis using Some inv1 by (simp add: cm_set_def Let_def)
  next
    case (Some sz)
    let ?entry = "\<lparr>key = ?k, filePath = ?path,
                  metadata = \<lparr>m_url = u, m_params = ps, m_format = format_or_png ps,
                              createdAt = tc, lastAccessed = ta, m_size = sz\<rparr>\<rparr>"
    let ?cm2 = "?cm1\<lparr>cache := AList.update ?k ?entry (cache ?cm1)\<rparr>"
    have "0 \<le> sz"
      using Some by (auto simp: fs_stat_def split: if_splits option.splits)
    then have ok: "entry_ok ?cm1 (?k, ?entry)"
      by (simp add: entry_ok_def getFilePath_def format_or_png_dotless)
    have "cache_inv ?cm2"
      by (rule cache_inv_update[OF inv1 ok]) simp_all
    then have "cache_inv (enforceSize ?cm2 io)" by (rule cache_inv_enforceSize)
    then show ?thesis
      using \<open>fs_writeFile (writeFile_fails io) (disk cm) ?path buf = Some d\<close> Some
      by (simp add: cm_set_def Let_def getFilePath_def)
  qed
qed


lemma totalSize_alt: "totalSize cm = (\<Sum>p\<leftarrow>cache cm. esize (snd p))"
  by (simp add: totalSize_def comp_def)

lemma cm_set_stored:
  assumes "\<not> writeFile_fails io" and "\<not> stat_fails io"
  shows "cm_set H cm u ps buf tc ta io = enforceSize (cm_stored H cm u ps buf tc ta) io"
  using assms by (simp add: cm_set_def cm_stored_def Let_def fs_writeFile_def fs_stat_def)

lemma cm_set_unstored:
  assumes "writeFile_fails io \<or> stat_fails io"
  shows "cache (cm_set H cm u ps buf tc ta io) = cache cm"
    and "maxCacheSize (cm_set H cm u ps buf tc ta io) = maxCacheSize cm"
  using assms by (auto simp: cm_set_def Let_def fs_writeFile_def fs_stat_def)

lemma cache_inv_stored:
  assumes "cache_inv cm"
  shows "cache_inv (cm_stored H cm u ps buf tc ta)"
proof -
  let ?k = "generateCacheKey H u ps"
  let ?entry = "\<lparr>key = ?k, filePath = getFilePath cm ?k (format_or_png ps),
                  metadata = \<lparr>m_url = u, m_params = ps, m_format = format_or_png ps,
                              createdAt = tc, lastAccessed = ta, m_size = int (length buf)\<rparr>\<rparr>"
  have ok: "entry_ok cm (?k, ?entry)"
    by (simp add: entry_ok_def format_or_png_dotless)
  show ?thesis
    by (rule cache_inv_update[OF assms ok]) (simp_all add: cm_stored_def Let_def)
qed

lemma enforceSize_fields:
  "maxCacheSize (enforceSize cm io) = maxCacheSize cm"
  "maxCacheAge (enforceSize cm io) = maxCacheAge cm"
  "cacheDir (enforceSize cm io) = cacheDir cm"
  by (simp_all add: enforceSize_def enforceSize_loop_fields)

lemma enforceSize_over:
  assumes inv: "cache_inv c" and over: "\<not> totalSize c \<le> maxCacheSize c" and nn: "0 \<le> maxCacheSize c"
  defines "es \<equiv> sort_key (\<lambda>entry. lastAccessed (metadata entry)) (map snd (cache c))"
  defines "ev \<equiv> evict_prefix (maxCacheSize c) es (totalSize c)"
  shows "cache (enforceSize c io) = filter (\<lambda>p. fst p \<notin> set (map key ev)) (cache c)"
    and "map snd (cache (enforceSize c io)) = filter (\<lambda>e. e \<notin> set ev) (map snd (cache c))"
    and "totalSize (enforceSize c io) = totalSize c - sum_list (map esize ev)"
    and "within_margin (totalSize (enforceSize c io)) (maxCacheSize c)"
    and "evicted c (enforceSize c io) = ev"
proof -
  have dk: "distinct (map key (map snd (cache c)))" using inv by (rule cache_inv_distinct_entries)
  have dkes: "distinct (map key es)" unfolding es_def using dk by (rule distinct_map_sort_key)
  obtain n where ev_take: "ev = take n es" and n: "n = length ev"
    using evict_prefix_take[of "maxCacheSize c" es "totalSize c"] by (simp add: ev_def)
  have dkev: "distinct (map key ev)" unfolding ev_take using dkes by (rule distinct_map_take)
  have sub: "set ev \<subseteq> set (map snd (cache c))"
    unfolding ev_take es_def using set_take_subset[of n] by fastforce
  have look: "\<forall>e\<in>set ev. map_of (cache c) (key e) = Some e"
    using sub cache_inv_lookup[OF inv] by blast
  show c1: "cache (enforceSize c io) = filter (\<lambda>p. fst p \<notin> set (map key ev)) (cache c)"
    using over by (simp add: enforceSize_def enforceSize_loop_cache ev_def es_def)
  have same: "\<And>p. p \<in> set (cache c) \<Longrightarrow> (fst p \<notin> set (map key ev)) = (snd p \<notin> set ev)"
  proof -
    fix p assume p: "p \<in> set (cache c)"
    have kp: "key (snd p) = fst p"
      using inv p by (auto simp: cache_inv_def list_all_iff entry_ok_def)
    have mp: "map_of (cache c) (fst p) = Some (snd p)"
      using inv p by (cases p) (simp add: cache_inv_def)
    show "(fst p \<notin> set (map key ev)) = (snd p \<notin> set ev)"
    proof
      assume "fst p \<notin> set (map key ev)"
      then show "snd p \<notin> set ev" using kp by force
    next
      assume a: "snd p \<notin> set ev"
      show "fst p \<notin> set (map key ev)"
      proof
        assume "fst p \<in> set (map key ev)"
        then obtain e where e: "e \<in> set ev" "key e = fst p" by auto
        then have "map_of (cache c) (fst p) = Some e" using look by force
        then have "e = snd p" using mp by simp
        then show False using a e by simp
      qed
    qed
  qed
  have c1': "cache (enforceSize c io) = filter (\<lambda>p. snd p \<notin> set ev) (cache c)"
    unfolding c1 using same by (intro filter_cong) auto
  show c2: "map snd (cache (enforceSize c io)) = filter (\<lambda>e. e \<notin> set ev) (map snd (cache c))"
    unfolding c1' by (simp add: filter_map comp_def)
  have "distinct (map fst (cache c))" using inv by (simp add: cache_inv_def)
  then show c3: "totalSize (enforceSize c io) = totalSize c - sum_list (map esize ev)"
    unfolding totalSize_alt c1 using dkev look by (rule sum_without_keys)
  have tot: "sum_list (map esize es) = totalSize c"
    by (simp add: es_def sum_list_sort_key totalSize_def)
  show "within_margin (totalSize (enforceSize c io)) (maxCacheSize c)"
    using evict_prefix_end[of "totalSize c" "maxCacheSize c" es] tot within_margin_zero[OF nn]
    unfolding c3 ev_def[symmetric] by auto
  have dsnd: "distinct (map snd (cache c))"
    using dk distinct_map[of key "map snd (cache c)"] by blast
  have dev: "distinct ev"
    using dkev distinct_map[of key ev] by blast
  have "length (cache (enforceSize c io)) = length (map snd (cache (enforceSize c io)))" by simp
  also have "\<dots> = length (map snd (cache c)) - length ev"
    unfolding c2 using dsnd dev sub by (rule length_filter_not_in)
  finally have len: "length (cache (enforceSize c io)) = length (cache c) - length ev" by simp
  have "length ev \<le> length (cache c)"
    using ev_take by (simp add: es_def)
  then have L: "length (cache c) - length (cache (enforceSize c io)) = length ev"
    using len by simp
  have tk: "take (length ev) es = ev"
    unfolding ev_def by (rule evict_prefix_take[symmetric])
  show "evicted c (enforceSize c io) = ev"
    unfolding evicted_def es_def[symmetric] L by (rule tk)
qed


lemma evict_prefix_take_less:
  "m < length (evict_prefix mx es cur) \<Longrightarrow> take m (evict_prefix mx es cur) = take m es"
proof (induction es arbitrary: cur m)
  case Nil
  then show ?case by simp
next
  case (Cons e es)
  show ?case
  proof (cases m)
    case 0
    then show ?thesis by simp
  next
    case (Suc m')
    then have "m' < length (evict_prefix mx es (cur - esize e))" and "\<not> within_margin cur mx"
      using Cons.prems by (auto split: if_splits)
    then show ?thesis using Cons.IH Suc by simp
  qed
qed

lemma sorted_prefix_le:
  assumes "a \<in> set (take n (sort_key f xs))" and "b \<in> set (sort_key f xs)"
    and "b \<notin> set (take n (sort_key f xs))"
  shows "f a \<le> (f b :: int)"
proof -
  let ?es = "sort_key f xs"
  have "set ?es = set (take n ?es) \<union> set (drop n ?es)"
    by (metis append_take_drop_id set_append)
  then have b: "b \<in> set (drop n ?es)" using assms(2,3) by blast
  have "sorted (map f ?es)" by (rule sorted_sort_key)
  then have "sorted (map f (take n ?es) @ map f (drop n ?es))"
    by (metis append_take_drop_id map_append)
  then have "\<forall>x\<in>set (map f (take n ?es)). \<forall>y\<in>set (map f (drop n ?es)). x \<le> y"
    unfolding sorted_append by blast
  then show ?thesis using assms(1) b by auto
qed

text \<open>What one \<open>set\<close> does to the total and to the index, from a manager in order.\<close>

lemma cm_set_size_and_eviction:
  assumes inv: "cache_inv cm" and nn: "0 \<le> maxCacheSize cm"
    and below: "totalSize cm \<le> maxCacheSize cm"
  shows "totalSize (cm_set H cm u ps buf tc ta io) \<le> maxCacheSize (cm_set H cm u ps buf tc ta io)
    \<and> cache_inv (cm_set H cm u ps buf tc ta io)
    \<and> (\<not> writeFile_fails io \<and> \<not> stat_fails io
         \<and> totalSize (cm_stored H cm u ps buf tc ta) \<le> maxCacheSize cm
       \<longrightarrow> cm_set H cm u ps buf tc ta io = cm_stored H cm u ps buf tc ta)
    \<and> (\<not> writeFile_fails io \<and> \<not> stat_fails io
         \<and> \<not> totalSize (cm_stored H cm u ps buf tc ta) \<le> maxCacheSize cm
       \<longrightarrow> map snd (cache (cm_set H cm u ps buf tc ta io))
             = filter (\<lambda>e. e \<notin> set (evicted (cm_stored H cm u ps buf tc ta) (cm_set H cm u ps buf tc ta io)))
                 (map snd (cache (cm_stored H cm u ps buf tc ta)))
           \<and> within_margin (totalSize (cm_set H cm u ps buf tc ta io)) (maxCacheSize cm)
           \<and> (\<forall>m < length (evicted (cm_stored H cm u ps buf tc ta) (cm_set H cm u ps buf tc ta io)).
                 \<not> within_margin (totalSize (cm_stored H cm u ps buf tc ta)
                        - sum_list (map (\<lambda>e. m_size (metadata e))
                            (take m (evicted (cm_stored H cm u ps buf tc ta) (cm_set H cm u ps buf tc ta io))))) (maxCacheSize cm))
           \<and> (\<forall>a\<in>set (evicted (cm_stored H cm u ps buf tc ta) (cm_set H cm u ps buf tc ta io)).
               \<forall>b\<in>set (map snd (cache (cm_set H cm u ps buf tc ta io))).
                 lastAccessed (metadata a) \<le> lastAccessed (metadata b)))"
proof -
  let ?c = "cm_stored H cm u ps buf tc ta"
  let ?cm' = "cm_set H cm u ps buf tc ta io"
  let ?es = "sort_key (\<lambda>entry. lastAccessed (metadata entry)) (map snd (cache ?c))"
  let ?ev = "evict_prefix (maxCacheSize ?c) ?es (totalSize ?c)"
  have mx: "maxCacheSize ?c = maxCacheSize cm" by (simp add: cm_stored_def Let_def)
  have invc: "cache_inv ?c" using inv by (rule cache_inv_stored)
  have nnc: "0 \<le> maxCacheSize ?c" using nn mx by simp
  have A2: "cache_inv ?cm'" using inv by (rule cache_inv_set)
  have A3: "\<not> writeFile_fails io \<and> \<not> stat_fails io \<and> totalSize ?c \<le> maxCacheSize cm \<longrightarrow> ?cm' = ?c"
    using mx by (simp add: cm_set_stored enforceSize_def)
  have B: "map snd (cache ?cm') = filter (\<lambda>e. e \<notin> set (evicted ?c ?cm')) (map snd (cache ?c))
           \<and> within_margin (totalSize ?cm') (maxCacheSize cm)
           \<and> (\<forall>m < length (evicted ?c ?cm').
                 \<not> within_margin (totalSize ?c - sum_list (map (\<lambda>e. m_size (metadata e)) (take m (evicted ?c ?cm')))) (maxCacheSize cm))
           \<and> (\<forall>a\<in>set (evicted ?c ?cm'). \<forall>b\<in>set (map snd (cache ?cm')).
                 lastAccessed (metadata a) \<le> lastAccessed (metadata b))"
    if ok: "\<not> writeFile_fails io" "\<not> stat_fails io" and over: "\<not> totalSize ?c \<le> maxCacheSize cm"
  proof -
    have eq: "?cm' = enforceSize ?c io" using ok by (simp add: cm_set_stored)
    have over': "\<not> totalSize ?c \<le> maxCacheSize ?c" using over mx by simp
    note E = enforceSize_over[OF invc over' nnc, of io]
    have ev: "evicted ?c ?cm' = ?ev" unfolding eq by (rule E(5))
    have b1: "map snd (cache ?cm') = filter (\<lambda>e. e \<notin> set (evicted ?c ?cm')) (map snd (cache ?c))"
      unfolding ev unfolding eq by (rule E(2))
    have b2: "within_margin (totalSize ?cm') (maxCacheSize cm)"
      unfolding eq using E(4) mx by simp
    have b3: "\<forall>m < length (evicted ?c ?cm').
                 \<not> within_margin (totalSize ?c - sum_list (map (\<lambda>e. m_size (metadata e)) (take m (evicted ?c ?cm')))) (maxCacheSize cm)"
    proof (intro allI impI)
      fix m assume m: "m < length (evicted ?c ?cm')"
      then have m': "m < length ?ev" using ev by simp
      have "take m ?ev = take m ?es"
        using m' by (rule evict_prefix_take_less)
      then show "\<not> within_margin (totalSize ?c - sum_list (map (\<lambda>e. m_size (metadata e)) (take m (evicted ?c ?cm')))) (maxCacheSize cm)"
        using evict_prefix_needed[OF m'] mx ev by simp
    qed
    have b4: "\<forall>a\<in>set (evicted ?c ?cm'). \<forall>b\<in>set (map snd (cache ?cm')).
                 lastAccessed (metadata a) \<le> lastAccessed (metadata b)"
    proof (intro ballI)
      fix a b assume a: "a \<in> set (evicted ?c ?cm')" and b: "b \<in> set (map snd (cache ?cm'))"
      have b': "b \<in> set ?es" "b \<notin> set (evicted ?c ?cm')"
        using b unfolding b1 by auto
      show "lastAccessed (metadata a) \<le> lastAccessed (metadata b)"
        using a b' unfolding evicted_def
        by (rule sorted_prefix_le[where f = "\<lambda>entry. lastAccessed (metadata entry)"])
    qed
    show ?thesis by (intro conjI b1 b2 b3 b4)
  qed
  have A1: "totalSize ?cm' \<le> maxCacheSize ?cm'"
  proof (cases "writeFile_fails io \<or> stat_fails io")
    case True
    then show ?thesis
      using below cm_set_unstored[OF True, of H cm u ps buf tc ta] by (simp add: totalSize_def)
  next
    case False
    then have eq: "?cm' = enforceSize ?c io" by (simp add: cm_set_stored)
    show ?thesis
    proof (cases "totalSize ?c \<le> maxCacheSize cm")
      case True
      then show ?thesis using eq mx by (simp add: enforceSize_def)
    next
      case over: False
      have "within_margin (totalSize ?cm') (maxCacheSize cm)"
        using B[of ] False over by simp
      then have "totalSize ?cm' \<le> maxCacheSize cm" by (rule within_margin_le_max[OF nn])
      then show ?thesis using eq mx by (simp add: enforceSize_fields)
    qed
  qed
  show ?thesis
  proof (intro conjI)
    show "totalSize ?cm' \<le> maxCacheSize ?cm'" by (rule A1)
    show "cache_inv ?cm'" by (rule A2)
    show "\<not> writeFile_fails io \<and> \<not> stat_fails io \<and> totalSize ?c \<le> maxCacheSize cm \<longrightarrow> ?cm' = ?c"
      by (rule A3)
    show "\<not> writeFile_fails io \<and> \<not> stat_fails io \<and> \<not> totalSize ?c \<le> maxCacheSize cm
       \<longrightarrow> map snd (cache ?cm') = filter (\<lambda>e. e \<notin> set (evicted ?c ?cm')) (map snd (cache ?c))
           \<and> within_margin (totalSize ?cm') (maxCacheSize cm)
           \<and> (\<forall>m < length (evicted ?c ?cm').
                 \<not> within_margin (totalSize ?c - sum_list (map (\<lambda>e. m_size (metadata e)) (take m (evicted ?c ?cm')))) (maxCacheSize cm))
           \<and> (\<forall>a\<in>set (evicted ?c ?cm'). \<forall>b\<in>set (map snd (cache ?cm')).
                 lastAccessed (metadata a) \<le> lastAccessed (metadata b))"
    proof
      assume h: "\<not> writeFile_fails io \<and> \<not> stat_fails io \<and> \<not> totalSize ?c \<le> maxCacheSize cm"
      show "map snd (cache ?cm') = filter (\<lambda>e. e \<notin> set (evicted ?c ?cm')) (map snd (cache ?c))
           \<and> within_margin (totalSize ?cm') (maxCacheSize cm)
           \<and> (\<forall>m < length (evicted ?c ?cm').
                 \<not> within_margin (totalSize ?c - sum_list (map (\<lambda>e. m_size (metadata e)) (take m (evicted ?c ?cm')))) (maxCacheSize cm))
           \<and> (\<forall>a\<in>set (evicted ?c ?cm'). \<forall>b\<in>set (map snd (cache ?cm')).
                 lastAccessed (metadata a) \<le> lastAccessed (metadata b))"
        by (rule B) (use h in simp_all)
    qed
  qed
qed


lemma split_at_last_dot:
  assumes "xs @ CHR ''.'' # f = ys @ CHR ''.'' # g"
    and "CHR ''.'' \<notin> set f" and "CHR ''.'' \<notin> set g"
  shows "xs = ys \<and> f = g"
proof -
  have t: "\<And>zs h. CHR ''.'' \<notin> set h \<Longrightarrow>
      takeWhile (\<lambda>c. c \<noteq> CHR ''.'') (rev h @ CHR ''.'' # rev zs) = rev h"
  proof -
    fix zs h assume "CHR ''.'' \<notin> set h"
    then have "\<And>x. x \<in> set (rev h) \<Longrightarrow> x \<noteq> CHR ''.''" by auto
    then have "takeWhile (\<lambda>c. c \<noteq> CHR ''.'') (rev h @ CHR ''.'' # rev zs)
        = rev h @ takeWhile (\<lambda>c. c \<noteq> CHR ''.'') (CHR ''.'' # rev zs)"
      by (rule takeWhile_append2)
    then show "takeWhile (\<lambda>c. c \<noteq> CHR ''.'') (rev h @ CHR ''.'' # rev zs) = rev h" by simp
  qed
  have a: "rev (xs @ CHR ''.'' # f) = rev f @ CHR ''.'' # rev xs" by simp
  have b: "rev (ys @ CHR ''.'' # g) = rev g @ CHR ''.'' # rev ys" by simp
  have "rev f @ CHR ''.'' # rev xs = rev g @ CHR ''.'' # rev ys"
    using assms(1) a b by metis
  then have "takeWhile (\<lambda>c. c \<noteq> CHR ''.'') (rev f @ CHR ''.'' # rev xs)
      = takeWhile (\<lambda>c. c \<noteq> CHR ''.'') (rev g @ CHR ''.'' # rev ys)" by (rule arg_cong)
  then have "rev f = rev g" unfolding t[OF assms(2)] t[OF assms(3)] .
  then have "f = g" by simp
  then show ?thesis using assms(1) by simp
qed

lemma getFilePath_eq:
  assumes "getFilePath cm k f = getFilePath cm k' f'"
  shows "k @ CHR ''.'' # f = k' @ CHR ''.'' # f'"
proof -
  have "cacheDir cm @ (''/'' @ (k @ (''.'' @ f))) = cacheDir cm @ (''/'' @ (k' @ (''.'' @ f')))"
    using assms unfolding getFilePath_def by (simp only: append_assoc)
  then have "''/'' @ (k @ (''.'' @ f)) = ''/'' @ (k' @ (''.'' @ f'))"
    by (simp only: same_append_eq)
  then have "k @ (''.'' @ f) = k' @ (''.'' @ f')"
    by (simp only: same_append_eq)
  then show ?thesis by (simp only: append_Cons append_Nil)
qed

lemma getFilePath_inj:
  assumes "getFilePath cm k f = getFilePath cm k' f'"
    and "CHR ''.'' \<notin> set f" and "CHR ''.'' \<notin> set f'"
  shows "k = k'"
proof -
  have "k @ CHR ''.'' # f = k' @ CHR ''.'' # f'"
    using assms(1) by (rule getFilePath_eq)
  from split_at_last_dot[OF this assms(2,3)] show ?thesis by simp
qed

lemma cache_inv_entry_ok:
  assumes "cache_inv cm" and "map_of (cache cm) k = Some e"
  shows "entry_ok cm (k, e)"
  using assms map_of_SomeD[OF assms(2)] by (auto simp: cache_inv_def list_all_iff)

lemma paths_differ:
  assumes "cache_inv cm" and "map_of (cache cm) k = Some e" and "map_of (cache cm) k' = Some e'"
    and "k \<noteq> k'"
  shows "filePath e \<noteq> filePath e'"
proof
  assume eq: "filePath e = filePath e'"
  have a: "entry_ok cm (k, e)" and b: "entry_ok cm (k', e')"
    using assms(1,2,3) by (auto intro: cache_inv_entry_ok)
  have "getFilePath cm k (m_format (metadata e)) = getFilePath cm k' (m_format (metadata e'))"
    using a b eq by (simp add: entry_ok_def)
  from getFilePath_inj[OF this] have "k = k'"
    using a b by (simp add: entry_ok_def)
  then show False using assms(4) by simp
qed

lemma enforceSize_loop_lookup:
  "map_of (cache (enforceSize_loop cm io es cur)) k =
     (if k \<in> set (map key (evict_prefix (maxCacheSize cm) es cur)) then None
      else map_of (cache cm) k)"
  unfolding enforceSize_loop_cache
  using map_of_filter_key[of "\<lambda>x. x \<notin> set (map key (evict_prefix (maxCacheSize cm) es cur))"
      "cache cm" k]
  by simp

lemma enforceSize_loop_keeps_file:
  assumes "cache_inv cm" and "map_of (cache cm) k = Some e"
    and "map_of (cache (enforceSize_loop cm io es cur)) k \<noteq> None"
  shows "disk (enforceSize_loop cm io es cur) (filePath e) = disk cm (filePath e)
         \<and> map_of (cache (enforceSize_loop cm io es cur)) k = Some e"
  using assms
proof (induction es arbitrary: cm cur)
  case Nil
  then show ?case by simp
next
  case (Cons e0 es)
  show ?case
  proof (cases "within_margin cur (maxCacheSize cm)")
    case True
    then show ?thesis using Cons.prems by simp
  next
    case False
    let ?cm1 = "cm_delete cm (key e0) io"
    let ?r = "enforceSize_loop ?cm1 io es (cur - m_size (metadata e0))"
    have r: "enforceSize_loop cm io (e0 # es) cur = ?r" using False by simp
    have kept: "map_of (cache ?r) k \<noteq> None" using Cons.prems(3) r by simp
    have "map_of (cache ?cm1) k \<noteq> None"
      using kept unfolding enforceSize_loop_lookup by (simp split: if_splits)
    then have ne: "key e0 \<noteq> k"
      unfolding cm_delete_cache by (auto simp: delete_conv')
    then have m1: "map_of (cache ?cm1) k = Some e"
      using Cons.prems(2) by (simp add: cm_delete_cache delete_conv')
    have inv1: "cache_inv ?cm1" using Cons.prems(1) by (rule cache_inv_delete)
    have ih: "disk ?r (filePath e) = disk ?cm1 (filePath e) \<and> map_of (cache ?r) k = Some e"
      using Cons.IH[OF inv1 m1 kept] .
    have "disk ?cm1 (filePath e) = disk cm (filePath e)"
    proof (rule cm_delete_disk_other)
      fix e1 assume "map_of (cache cm) (key e0) = Some e1"
      then show "filePath e1 \<noteq> filePath e"
        using paths_differ[OF Cons.prems(1) _ Cons.prems(2) ne] by blast
    qed
    then show ?thesis using ih r by simp
  qed
qed

text \<open>A stored buffer is read back, from a manager whose index invariant holds.\<close>

lemma cm_set_then_get:
  assumes inv: "cache_inv cm"
    and same: "normalizedParams u' ps' = normalizedParams u ps"
    and wr: "\<not> writeFile_fails io" and st: "\<not> stat_fails io"
    and kept: "map_of (cache (cm_set H cm u ps buf tc ta io)) (generateCacheKey H u ps) \<noteq> None"
    and young: "\<not> now - tc > maxCacheAge cm"
    and rd: "\<not> readFile_fails io'"
  shows "fst (cm_get H (cm_set H cm u ps buf tc ta io) u' ps' now io') = Some buf"
proof -
  let ?k = "generateCacheKey H u ps"
  let ?c = "cm_stored H cm u ps buf tc ta"
  let ?cm' = "cm_set H cm u ps buf tc ta io"
  let ?path = "getFilePath cm ?k (format_or_png ps)"
  let ?entry = "\<lparr>key = ?k, filePath = ?path,
                  metadata = \<lparr>m_url = u, m_params = ps, m_format = format_or_png ps,
                              createdAt = tc, lastAccessed = ta, m_size = int (length buf)\<rparr>\<rparr>"
  have k': "generateCacheKey H u' ps' = ?k" using same by (simp add: generateCacheKey_def)
  have eq: "?cm' = enforceSize ?c io" using wr st by (rule cm_set_stored)
  have invc: "cache_inv ?c" using inv by (rule cache_inv_stored)
  have mc: "map_of (cache ?c) ?k = Some ?entry"
    by (simp add: cm_stored_def Let_def update_conv')
  have dc: "disk ?c ?path = Some buf"
    by (simp add: cm_stored_def Let_def)
  have both: "disk ?cm' ?path = Some buf \<and> map_of (cache ?cm') ?k = Some ?entry"
  proof (cases "totalSize ?c \<le> maxCacheSize ?c")
    case True
    then show ?thesis using eq mc dc by (simp add: enforceSize_def)
  next
    case False
    let ?es = "sort_key (\<lambda>entry. lastAccessed (metadata entry)) (map snd (cache ?c))"
    have eq2: "?cm' = enforceSize_loop ?c io ?es (totalSize ?c)"
      using eq False by (simp add: enforceSize_def)
    have "map_of (cache (enforceSize_loop ?c io ?es (totalSize ?c))) ?k \<noteq> None"
      using kept eq2 by simp
    from enforceSize_loop_keeps_file[OF invc mc this]
    show ?thesis using dc eq2 by simp
  qed
  have age: "maxCacheAge ?cm' = maxCacheAge cm"
    unfolding eq by (simp add: enforceSize_fields cm_stored_def Let_def)
  show ?thesis
    using both young rd age
    by (simp add: cm_get_def k' Let_def fs_readFile_def)
qed


subsection \<open>Every reachable manager is in order\<close>

lemma sum_update_same:
  assumes "map_of al k = Some e" and "g e' = (g e :: int)"
  shows "(\<Sum>p\<leftarrow>AList.update k e' al. g (snd p)) = (\<Sum>p\<leftarrow>al. g (snd p))"
  using assms
proof (induction al)
  case Nil
  then show ?case by simp
next
  case (Cons a al)
  then show ?case by (cases a) (auto split: if_splits)
qed

lemma totalSize_delete_le:
  assumes "cache_inv cm"
  shows "totalSize (cm_delete cm k io) \<le> totalSize cm"
proof (cases "map_of (cache cm) k")
  case None
  then have "k \<notin> fst ` set (cache cm)" by (simp add: map_of_eq_None_iff)
  then have "AList.delete k (cache cm) = cache cm" by simp
  then show ?thesis by (simp add: totalSize_def cm_delete_cache)
next
  case (Some e)
  have d: "distinct (map fst (cache cm))" using assms by (simp add: cache_inv_def)
  have "0 \<le> m_size (metadata e)"
    using cache_inv_entry_ok[OF assms Some] by (simp add: entry_ok_def)
  moreover have "totalSize (cm_delete cm k io) = totalSize cm - m_size (metadata e)"
    unfolding totalSize_alt cm_delete_cache delete_as_filter
    using d Some by (rule sum_without_key)
  ultimately show ?thesis by simp
qed

lemma cache_ok_delete: "cache_ok cm \<Longrightarrow> cache_ok (cm_delete cm k io)"
  using totalSize_delete_le[of cm k io]
  by (simp add: cache_ok_def cache_inv_delete cm_delete_fields)

lemma cache_ok_fold_delete: "cache_ok cm \<Longrightarrow> cache_ok (fold (\<lambda>k c. cm_delete c k io) ks cm)"
  by (induction ks arbitrary: cm) (simp_all add: cache_ok_delete)

lemma cache_ok_touch:
  assumes ok: "cache_ok cm" and m: "map_of (cache cm) k = Some e"
  shows "cache_ok (cm\<lparr>cache := AList.update k (e\<lparr>metadata := (metadata e)\<lparr>lastAccessed := now\<rparr>\<rparr>) (cache cm)\<rparr>)"
proof -
  let ?e1 = "e\<lparr>metadata := (metadata e)\<lparr>lastAccessed := now\<rparr>\<rparr>"
  let ?cm1 = "cm\<lparr>cache := AList.update k ?e1 (cache cm)\<rparr>"
  have inv: "cache_inv cm" using ok by (simp add: cache_ok_def)
  have "entry_ok cm (k, e)" using inv m by (rule cache_inv_entry_ok)
  then have e1: "entry_ok cm (k, ?e1)" by (simp add: entry_ok_def)
  have inv1: "cache_inv ?cm1"
    by (rule cache_inv_update[OF inv e1]) simp_all
  have "totalSize ?cm1 = totalSize cm"
    unfolding totalSize_alt using sum_update_same[OF m, of "\<lambda>x. m_size (metadata x)" ?e1] by simp
  then show ?thesis using ok inv1 by (simp add: cache_ok_def)
qed

lemma cache_ok_get:
  assumes ok: "cache_ok cm"
  shows "cache_ok (snd (cm_get H cm u ps now io))"
proof (cases "map_of (cache cm) (generateCacheKey H u ps)")
  case None
  then show ?thesis using ok by (simp add: cm_get_def)
next
  case (Some e)
  let ?k = "generateCacheKey H u ps"
  let ?cm1 = "cm\<lparr>cache := AList.update ?k (e\<lparr>metadata := (metadata e)\<lparr>lastAccessed := now\<rparr>\<rparr>) (cache cm)\<rparr>"
  have ok1: "cache_ok ?cm1" using ok Some by (rule cache_ok_touch)
  show ?thesis
  proof (cases "now - createdAt (metadata e) > maxCacheAge cm")
    case True
    then show ?thesis using Some ok by (simp add: cm_get_def cache_ok_delete)
  next
    case False
    then show ?thesis
      using Some ok1 cache_ok_delete[OF ok1, of ?k io]
      by (simp add: cm_get_def Let_def split: option.splits)
  qed
qed

lemma cm_set_maxCacheSize: "maxCacheSize (cm_set H cm u ps buf tc ta io) = maxCacheSize cm"
proof (cases "writeFile_fails io \<or> stat_fails io")
  case True
  then show ?thesis by (rule cm_set_unstored)
next
  case False
  then have "cm_set H cm u ps buf tc ta io = enforceSize (cm_stored H cm u ps buf tc ta) io"
    by (simp add: cm_set_stored)
  then show ?thesis by (simp add: enforceSize_fields cm_stored_def Let_def)
qed

lemma cache_ok_set:
  assumes "cache_ok cm"
  shows "cache_ok (cm_set H cm u ps buf tc ta io)"
proof -
  have inv: "cache_inv cm" and nn: "0 \<le> maxCacheSize cm" and below: "totalSize cm \<le> maxCacheSize cm"
    using assms by (simp_all add: cache_ok_def)
  note S = cm_set_size_and_eviction[OF inv nn below, of H u ps buf tc ta io]
  have "totalSize (cm_set H cm u ps buf tc ta io) \<le> maxCacheSize (cm_set H cm u ps buf tc ta io)"
    using S by (rule conjunct1)
  moreover have "cache_inv (cm_set H cm u ps buf tc ta io)"
    using inv by (rule cache_inv_set)
  ultimately show ?thesis using nn by (simp add: cache_ok_def cm_set_maxCacheSize)
qed

lemma cache_ok_new: "0 \<le> mx \<Longrightarrow> cache_ok (newCacheManager dir mx age d)"
  by (simp add: cache_ok_def cache_inv_def newCacheManager_def totalSize_def)

lemma cache_reachable_ok: "cache_reachable H cm \<Longrightarrow> cache_ok cm"
proof (induction rule: cache_reachable.induct)
  case (created mx dir age d)
  then show ?case by (rule cache_ok_new)
next
  case (after_set cm u ps buf tc ta io)
  then show ?case by (simp add: cache_ok_set)
next
  case (after_get cm u ps now io)
  then show ?case by (simp add: cache_ok_get)
next
  case (after_cleanup cm now io)
  then show ?case by (simp add: cm_cleanup_def cache_ok_fold_delete)
next
  case (after_clear cm io)
  then show ?case by (simp add: cm_clear_def cache_ok_fold_delete)
qed

subsection \<open>A call of \<open>set\<close> on its own\<close>







subsection \<open>The claims about \<open>set\<close>\<close>




text \<open>
  Claim C1. In every manager reachable from a new one: if \<open>set\<close> stores a
  buffer for a request (write and stat succeed), the entry is not evicted by
  the size enforcement of that call, and \<open>get\<close> is then called, with nothing
  in between, for a request with the same normal form, at a time when the
  entry is not older than the maximum age, and the read succeeds, then \<open>get\<close>
  returns exactly that buffer.
\<close>

theorem put_then_get_returns_bytes:
  assumes reach: "cache_reachable H cm"
    and same: "normalizedParams u' ps' = normalizedParams u ps"
    and wr: "\<not> writeFile_fails io" and st: "\<not> stat_fails io"
    and kept: "map_of (cache (cm_set H cm u ps buf tc ta io)) (generateCacheKey H u ps) \<noteq> None"
    and young: "\<not> now - tc > maxCacheAge cm"
    and rd: "\<not> readFile_fails io'"
  shows "fst (cm_get H (cm_set H cm u ps buf tc ta io) u' ps' now io') = Some buf"
proof -
  have "cache_ok cm" using reach by (rule cache_reachable_ok)
  then have inv: "cache_inv cm" by (simp add: cache_ok_def)
  show ?thesis using inv same wr st kept young rd by (rule cm_set_then_get)
qed

theorem put_then_get_returns_bytes_witness:
  "cache_reachable demo_digest two_cached
   \<and> normalizedParams ''  HTTPS://C.example '' (demo_params\<lparr>width := 0\<rparr>)
       = normalizedParams ''https://c.example'' demo_params
   \<and> map_of (cache (cm_set demo_digest two_cached ''https://c.example'' demo_params [9, 10, 11, 12]
         3000 3000 no_faults)) (generateCacheKey demo_digest ''https://c.example'' demo_params) \<noteq> None
   \<and> fst (cm_get demo_digest
         (cm_set demo_digest two_cached ''https://c.example'' demo_params [9, 10, 11, 12]
            3000 3000 no_faults)
         ''  HTTPS://C.example '' (demo_params\<lparr>width := 0\<rparr>) 86403000 unlink_broken)
       = Some [9, 10, 11, 12]"
proof -
  have h1: "cache_reachable demo_digest two_cached"
    unfolding two_cached_def
    by (intro cache_reachable.after_set cache_reachable.created) simp
  have h2: "normalizedParams ''  HTTPS://C.example '' (demo_params\<lparr>width := 0\<rparr>)
       = normalizedParams ''https://c.example'' demo_params"
    by code_simp
  have h3: "\<not> writeFile_fails no_faults" "\<not> stat_fails no_faults" "\<not> readFile_fails unlink_broken"
    by (simp_all add: no_faults_def unlink_broken_def)
  have h4: "map_of (cache (cm_set demo_digest two_cached ''https://c.example'' demo_params [9, 10, 11, 12]
         3000 3000 no_faults)) (generateCacheKey demo_digest ''https://c.example'' demo_params) \<noteq> None"
    by code_simp
  have h5: "\<not> 86403000 - 3000 > maxCacheAge two_cached" by code_simp
  show ?thesis
    using h1 h2 h4 put_then_get_returns_bytes [OF h1 h2 h3(1) h3(2) h4 h5 h3(3)]
    by simp
qed


section \<open>Properties of job creation\<close>

lemma validateUrl_valid_iff:
  "valid (validateUrl U u) =
     (case U u of
        None \<Rightarrow> False
      | Some p \<Rightarrow>
          protocol p \<in> set [''http:'', ''https:'']
          \<and> \<not> blockedHost (toLowerCase (hostname p))
          \<and> \<not> list_ex (str_includes (toLowerCase (hostname p))) suspiciousDomains
          \<and> \<not> list_ex (str_includes (toLowerCase u)) suspiciousPatterns)"
  by (cases "U u") (simp_all add: validateUrl_def Let_def)

lemma validateUrl_error:
  "\<not> valid (validateUrl U u) \<Longrightarrow> v_error (validateUrl U u) \<noteq> None"
  by (cases "U u") (simp_all add: validateUrl_def Let_def split: if_splits)

text \<open>
  Claim C7. When the URL of the request fails validation (the parser rejects
  it, the protocol is neither \<open>http:\<close> nor \<open>https:\<close>, the host is local or
  private, the host contains a shortener domain, or the URL contains a
  dangerous pseudo-protocol), \<open>createJob\<close> returns an error message with an
  empty job identifier and the queue object is exactly as before: no job
  record, nothing enqueued, the worker loop not started.
\<close>

theorem createJob_rejects_invalid_url:
  assumes "\<not> valid (validateUrl U (url_arg raw))"
  shows "(case U (url_arg raw) of
            None \<Rightarrow> True
          | Some p \<Rightarrow>
              protocol p \<notin> set [''http:'', ''https:'']
              \<or> blockedHost (toLowerCase (hostname p))
              \<or> list_ex (str_includes (toLowerCase (hostname p))) suspiciousDomains
              \<or> list_ex (str_includes (toLowerCase (url_arg raw))) suspiciousPatterns)
         \<and> (\<exists>msg. createJob U q raw now rnd created = (\<lparr>jobId = [], c_error = Some msg\<rparr>, q))"
proof -
  have a: "v_error (validateUrl U (url_arg raw)) \<noteq> None"
    using assms by (rule validateUrl_error)
  have b: "createJob U q raw now rnd created
      = (\<lparr>jobId = [], c_error = v_error (validateUrl U (url_arg raw))\<rparr>, q)"
    using assms by (simp add: createJob_def Let_def)
  have c: "case U (url_arg raw) of
            None \<Rightarrow> True
          | Some p \<Rightarrow>
              protocol p \<notin> set [''http:'', ''https:'']
              \<or> blockedHost (toLowerCase (hostname p))
              \<or> list_ex (str_includes (toLowerCase (hostname p))) suspiciousDomains
              \<or> list_ex (str_includes (toLowerCase (url_arg raw))) suspiciousPatterns"
    using assms unfolding validateUrl_valid_iff by (auto split: option.splits)
  show ?thesis using a b c by auto
qed

theorem createJob_rejects_invalid_url_witness:
  "\<not> valid (validateUrl demo_URL (url_arg (raw_of_url ''ftp://internal'')))
   \<and> createJob demo_URL newJobQueue (raw_of_url ''ftp://internal'') 1700000000000 ''k3j9x0a1b'' 1700000000000
      = (\<lparr>jobId = [], c_error = Some ''Only HTTP and HTTPS protocols are allowed''\<rparr>, newJobQueue)
   \<and> createJob demo_URL newJobQueue (raw_of_url ''http://127.0.0.1'') 1700000000000 ''k3j9x0a1b'' 1700000000000
      = (\<lparr>jobId = [], c_error = Some ''Local and private network addresses are not allowed''\<rparr>,
         newJobQueue)"
proof -
  have l: "createJob demo_URL newJobQueue (raw_of_url ''http://127.0.0.1'') 1700000000000 ''k3j9x0a1b'' 1700000000000
      = (\<lparr>jobId = [], c_error = Some ''Local and private network addresses are not allowed''\<rparr>,
         newJobQueue)"
    by code_simp
  have h: "\<not> valid (validateUrl demo_URL (url_arg (raw_of_url ''ftp://internal'')))"
    by (simp add: validateUrl_def demo_URL_def url_arg_def raw_of_url_def)
  show ?thesis
    using h l createJob_rejects_invalid_url [OF h, where q = newJobQueue and now = 1700000000000
        and rnd = "''k3j9x0a1b''" and created = 1700000000000]
    by (simp add: validateUrl_def demo_URL_def url_arg_def raw_of_url_def createJob_def)
qed

section \<open>Properties of job lookup\<close>

text \<open>
  Claim C9, as the code falsifies it: \<open>getJob\<close> hands out the capture
  parameters of the job it finds.
\<close>

theorem getJob_exposes_params_counterexample:
  "map_option params (getJob demo_queue demo_id) =
     Some \<lparr>url = ''https://example.com'', fullPage = False, width = 1280, height = 800,
           format = Png, delay = 0\<rparr>"
  by code_simp

text \<open>
  Claim C9, amended. For an identifier the scheduler holds, \<open>getJob\<close> returns
  the stored job record as it is, capture parameters included; the view
  without them (identifier, status, creation and completion time, result,
  error) is what the status route builds from that record, and it does not
  depend on the parameters. For an identifier the scheduler does not hold,
  \<open>getJob\<close> returns absent and the route answers not found.
\<close>

theorem getJob_returns_stored_record:
  "(\<forall>job. map_of (jobs q) i = Some job \<longrightarrow>
       getJob q i = Some job
       \<and> (i \<noteq> [] \<longrightarrow>
            status_GET toISO q i =
              Found \<lparr>s_jobId = job_id job, s_status = status job,
                     s_createdAt = toISO (job_createdAt job),
                     s_completedAt = (case completedAt job of
                                        None \<Rightarrow> None
                                      | Some t \<Rightarrow> if t = 0 then None else Some (toISO t)),
                     s_result = result job, s_error = error job\<rparr>
            \<and> (\<forall>p. status_GET toISO (q\<lparr>jobs := AList.update i (job\<lparr>params := p\<rparr>) (jobs q)\<rparr>) i
                    = status_GET toISO q i)))
   \<and> (map_of (jobs q) i = None \<longrightarrow> getJob q i = None \<and> (i \<noteq> [] \<longrightarrow> status_GET toISO q i = NotFound))"
  by (simp add: getJob_def status_GET_def update_conv')

theorem getJob_returns_stored_record_witness:
  "map_of (jobs demo_queue) demo_id = Some demo_job
   \<and> getJob demo_queue demo_id = Some demo_job
   \<and> status_GET demo_toISO demo_queue demo_id =
       Found \<lparr>s_jobId = demo_id, s_status = Processing, s_createdAt = demo_toISO 1700000000000,
              s_completedAt = None, s_result = None, s_error = None\<rparr>"
proof -
  have h: "map_of (jobs demo_queue) demo_id = Some demo_job"
    by code_simp
  show ?thesis
    using h getJob_returns_stored_record [where q = demo_queue and i = demo_id and toISO = demo_toISO]
    by (simp add: demo_job_def demo_id_def)
qed


section \<open>Properties of the worker loop\<close>

lemma captureWithRetry_cases:
  "captureWithRetry c 0 =
     (case c 0 of
        Inr shot \<Rightarrow> (Inr (Some shot), 1, [])
      | Inl e0 \<Rightarrow>
          (case c 1 of
             Inr shot \<Rightarrow> (Inr (Some shot), 2, [2000])
           | Inl e1 \<Rightarrow>
               (case c 2 of
                  Inr shot \<Rightarrow> (Inr (Some shot), 3, [2000, 2000])
                | Inl e2 \<Rightarrow> (Inl e2, 3, [2000, 2000]))))"
proof -
  have two: "captureWithRetry c 2 =
      (case c 2 of Inr shot \<Rightarrow> (Inr (Some shot), 1, []) | Inl e \<Rightarrow> (Inl e, 1, []))"
    by (subst captureWithRetry.simps) (simp add: maxRetries_def split: sum.splits)
  have one: "captureWithRetry c 1 =
      (case c 1 of Inr shot \<Rightarrow> (Inr (Some shot), 1, [])
       | Inl e \<Rightarrow> (case captureWithRetry c 2 of (r, n, ws) \<Rightarrow> (r, n + 1, 2000 # ws)))"
    by (subst captureWithRetry.simps) (simp add: maxRetries_def numeral_2_eq_2 split: sum.splits)
  have zero: "captureWithRetry c 0 =
      (case c 0 of Inr shot \<Rightarrow> (Inr (Some shot), 1, [])
       | Inl e \<Rightarrow> (case captureWithRetry c 1 of (r, n, ws) \<Rightarrow> (r, n + 1, 2000 # ws)))"
    by (subst captureWithRetry.simps) (simp add: maxRetries_def split: sum.splits)
  show ?thesis
    unfolding zero one two by (simp split: sum.splits)
qed


lemma next_job_Some:
  "next_job js qs = (Some (i, job), rest) \<Longrightarrow>
     i \<noteq> [] \<and> map_of js i = Some job
     \<and> (\<exists>skipped. qs = skipped @ i # rest \<and> (\<forall>x\<in>set skipped. x = [] \<or> map_of js x = None))"
proof (induction qs)
  case Nil
  then show ?case by simp
next
  case (Cons a qs)
  show ?case
  proof (cases "a = [] \<or> map_of js a = None")
    case True
    then have "next_job js qs = (Some (i, job), rest)"
      using Cons.prems by (auto split: if_splits option.splits)
    then obtain skipped where "i \<noteq> []" "map_of js i = Some job" "qs = skipped @ i # rest"
        "\<forall>x\<in>set skipped. x = [] \<or> map_of js x = None"
      using Cons.IH by blast
    then have "a # qs = (a # skipped) @ i # rest \<and> (\<forall>x\<in>set (a # skipped). x = [] \<or> map_of js x = None)"
      using True by simp
    then show ?thesis using \<open>i \<noteq> []\<close> \<open>map_of js i = Some job\<close> by blast
  next
    case False
    then have "a = i" "rest = qs" "map_of js a = Some job"
      using Cons.prems by (auto split: if_splits option.splits)
    then have "a # qs = [] @ i # rest" by simp
    then show ?thesis using False \<open>a = i\<close> \<open>map_of js a = Some job\<close> by fastforce
  qed
qed

lemma next_job_None:
  "next_job js qs = (None, rest) \<Longrightarrow> rest = [] \<and> (\<forall>x\<in>set qs. x = [] \<or> map_of js x = None)"
  by (induction qs) (auto split: if_splits option.splits)

lemma run_loop_jobs_other:
  assumes "i \<notin> set (processingQueue q)"
  shows "map_of (jobs (run_loop q)) i = map_of (jobs q) i"
proof (cases "next_job (jobs q) (processingQueue q)")
  case (Pair r rest)
  show ?thesis
  proof (cases r)
    case None
    then show ?thesis using Pair by (simp add: run_loop_def)
  next
    case (Some p)
    obtain i' job where p: "p = (i', job)" by (cases p)
    have "i' \<in> set (processingQueue q)"
      using next_job_Some[of "jobs q" "processingQueue q" i' job rest] Pair Some p by auto
    then have "i' \<noteq> i" using assms by auto
    then show ?thesis using Pair Some p by (simp add: run_loop_def Let_def update_conv')
  qed
qed

text \<open>
  Claim C8. When the request of the job under way misses the cache, the
  capture is called at least once and at most three times, every call but the
  last having failed, with a 2000 ms timeout between two calls. The job the
  loop stores is failed exactly when all three calls failed; its error field
  is then the message of the third error, and its completion time is set.
\<close>

theorem capture_attempted_at_most_three_times:
  assumes miss: "fst (cm_get H cm (url (params job)) (params job) (t_get env) (io_get env)) = None"
    and cur: "current q = Some (i, job)"
    and notq: "i \<notin> set (processingQueue q)"
  shows "case processJob H b64 toISO cm job env of
           (job1, cm1, n, ws) \<Rightarrow>
             1 \<le> n \<and> n \<le> 3 \<and> ws = replicate (n - 1) 2000
             \<and> (\<forall>k. k + 1 < n \<longrightarrow> isl (capture env k))
             \<and> map_of (jobs (fst (resume H b64 toISO q cm env))) i = Some job1
             \<and> (status job1 = Failed) = (\<forall>k<3. isl (capture env k))
             \<and> (status job1 = Failed \<longrightarrow>
                  n = 3 \<and> error job1 = Some (thrown_message (projl (capture env 2)))
                  \<and> completedAt job1 = Some (t_done env))"
proof -
  obtain cm0 where g: "cm_get H cm (url (params job)) (params job) (t_get env) (io_get env) = (None, cm0)"
    using miss by (cases "cm_get H cm (url (params job)) (params job) (t_get env) (io_get env)") simp
  obtain job1 cm1 n ws where p: "processJob H b64 toISO cm job env = (job1, cm1, n, ws)"
    by (cases "processJob H b64 toISO cm job env") auto
  have r: "map_of (jobs (fst (resume H b64 toISO q cm env))) i = Some job1"
    using cur notq p by (simp add: resume_def run_loop_jobs_other update_conv')
  have three: "\<And>P. (\<forall>k<3::nat. P k) = (P 0 \<and> P 1 \<and> P 2)"
    by (auto simp: less_Suc_eq numeral_3_eq_3 numeral_2_eq_2)
  have rest: "1 \<le> n \<and> n \<le> 3 \<and> ws = replicate (n - 1) 2000
             \<and> (\<forall>k. k + 1 < n \<longrightarrow> isl (capture env k))
             \<and> (status job1 = Failed) = (\<forall>k<3. isl (capture env k))
             \<and> (status job1 = Failed \<longrightarrow>
                  n = 3 \<and> error job1 = Some (thrown_message (projl (capture env 2)))
                  \<and> completedAt job1 = Some (t_done env))"
    using p unfolding processJob_def g three
    by (auto simp: captureWithRetry_cases failJob_def completeJob_def thrown_message_def
        numeral_2_eq_2 numeral_3_eq_3 less_Suc_eq
        split: sum.splits)
  show ?thesis using p r rest by simp
qed


theorem capture_attempted_at_most_three_times_witness:
  "fst (cm_get demo_digest empty_cache (url (params demo_job)) (params demo_job)
          (t_get failing_env) (io_get failing_env)) = None
   \<and> current demo_queue = Some (demo_id, demo_job)
   \<and> demo_id \<notin> set (processingQueue demo_queue)
   \<and> fst (snd (snd (processJob demo_digest demo_b64 demo_toISO empty_cache demo_job failing_env))) = 3
   \<and> map_option status (map_of (jobs (fst (resume demo_digest demo_b64 demo_toISO demo_queue
          empty_cache failing_env))) demo_id) = Some Failed
   \<and> map_option error (map_of (jobs (fst (resume demo_digest demo_b64 demo_toISO demo_queue
          empty_cache failing_env))) demo_id) = Some (Some ''Navigation timeout of 30000 ms exceeded'')"
proof -
  have h1: "fst (cm_get demo_digest empty_cache (url (params demo_job)) (params demo_job)
          (t_get failing_env) (io_get failing_env)) = None"
    by code_simp
  have h2: "current demo_queue = Some (demo_id, demo_job)"
    by code_simp
  have h3: "demo_id \<notin> set (processingQueue demo_queue)"
    by code_simp
  have c: "capture failing_env = (\<lambda>k. Inl (Error ''Navigation timeout of 30000 ms exceeded''))"
    by (simp add: failing_env_def)
  show ?thesis
    using h1 h2 h3
      capture_attempted_at_most_three_times [OF h1 h2 h3, where ?b64.0 = demo_b64 and toISO = demo_toISO]
    by (simp add: split_beta c thrown_message_def)
qed

section \<open>Properties of the job life cycle\<close>

lemma queue_inv_initial: "queue_inv newJobQueue"
  by (simp add: queue_inv_def newJobQueue_def)

lemma queue_inv_completed:
  "queue_inv q \<Longrightarrow> map_of (jobs q) i = Some j \<Longrightarrow> (completedAt j \<noteq> None) = terminal (status j)"
  unfolding queue_inv_def by blast

lemma queue_inv_queued:
  "queue_inv q \<Longrightarrow> i \<in> set (processingQueue q) \<Longrightarrow> \<exists>j. map_of (jobs q) i = Some j \<and> status j = Pending"
  unfolding queue_inv_def by blast

lemma queue_inv_busy: "queue_inv q \<Longrightarrow> current q \<noteq> None \<Longrightarrow> isProcessing q"
  unfolding queue_inv_def by blast

lemma queue_inv_current:
  "queue_inv q \<Longrightarrow> current q = Some (i, j) \<Longrightarrow>
     map_of (jobs q) i = Some j \<and> status j = Processing \<and> i \<notin> set (processingQueue q)"
  unfolding queue_inv_def by auto

text \<open>The loop head on a queue that satisfies the invariant and has no iteration under way.\<close>

lemma run_loop_step:
  assumes inv: "queue_inv q" and idle: "current q = None" and busy: "isProcessing q"
  shows "queue_inv (run_loop q)
    \<and> (\<forall>i. (map_of (jobs (run_loop q)) i = None) = (map_of (jobs q) i = None))
    \<and> (\<forall>i j j'. map_of (jobs q) i = Some j \<longrightarrow> map_of (jobs (run_loop q)) i = Some j' \<longrightarrow>
          j' = j
          \<or> (status j = Pending \<and> j' = j\<lparr>status := Processing\<rparr> \<and> i \<in> set (processingQueue q)
              \<and> i \<notin> set (processingQueue (run_loop q)) \<and> current (run_loop q) = Some (i, j')))
    \<and> set (processingQueue (run_loop q)) \<subseteq> set (processingQueue q)
    \<and> (\<forall>i j. current (run_loop q) = Some (i, j) \<longrightarrow> i \<in> set (processingQueue q))"
proof (cases "next_job (jobs q) (processingQueue q)")
  case (Pair r rest)
  show ?thesis
  proof (cases r)
    case None
    then have rl: "run_loop q = q\<lparr>processingQueue := rest, isProcessing := False, current := None\<rparr>"
      using Pair by (simp add: run_loop_def)
    have "rest = []" using next_job_None Pair None by blast
    then show ?thesis using inv unfolding rl by (simp add: queue_inv_def)
  next
    case (Some p)
    obtain i0 job where p: "p = (i0, job)" by (cases p)
    let ?job1 = "job\<lparr>status := Processing\<rparr>"
    have rl: "run_loop q = q\<lparr>processingQueue := rest, jobs := AList.update i0 ?job1 (jobs q),
                current := Some (i0, ?job1)\<rparr>"
      using Pair Some p by (simp add: run_loop_def Let_def)
    obtain skipped where nj: "map_of (jobs q) i0 = Some job" "processingQueue q = skipped @ i0 # rest"
      using next_job_Some[of "jobs q" "processingQueue q" i0 job rest] Pair Some p by auto
    have i0in: "i0 \<in> set (processingQueue q)" using nj(2) by simp
    have d: "distinct (processingQueue q)" using inv by (simp add: queue_inv_def)
    have i0rest: "i0 \<notin> set rest" and drest: "distinct rest" and sub: "set rest \<subseteq> set (processingQueue q)"
      using d nj(2) by auto
    have pend: "status job = Pending"
      using queue_inv_queued[OF inv i0in] nj(1) by auto
    have cnone: "completedAt job = None"
      using queue_inv_completed[OF inv nj(1)] pend by (simp add: terminal_def)
    have a: "queue_inv (run_loop q)"
      unfolding rl queue_inv_def
    proof (intro conjI)
      show "distinct (map fst (jobs (q\<lparr>processingQueue := rest, jobs := AList.update i0 ?job1 (jobs q),
                current := Some (i0, ?job1)\<rparr>)))"
        using inv by (simp add: queue_inv_def distinct_update)
      show "current (q\<lparr>processingQueue := rest, jobs := AList.update i0 ?job1 (jobs q),
                current := Some (i0, ?job1)\<rparr>) \<noteq> None \<longrightarrow>
            isProcessing (q\<lparr>processingQueue := rest, jobs := AList.update i0 ?job1 (jobs q),
                current := Some (i0, ?job1)\<rparr>)"
        using busy by simp
      show "distinct (processingQueue (q\<lparr>processingQueue := rest, jobs := AList.update i0 ?job1 (jobs q),
                current := Some (i0, ?job1)\<rparr>))" using drest by simp
      show "\<forall>i\<in>set (processingQueue (q\<lparr>processingQueue := rest, jobs := AList.update i0 ?job1 (jobs q),
                current := Some (i0, ?job1)\<rparr>)).
           \<exists>j. map_of (jobs (q\<lparr>processingQueue := rest, jobs := AList.update i0 ?job1 (jobs q),
                current := Some (i0, ?job1)\<rparr>)) i = Some j \<and> status j = Pending"
      proof
        fix i assume "i \<in> set (processingQueue (q\<lparr>processingQueue := rest,
            jobs := AList.update i0 ?job1 (jobs q), current := Some (i0, ?job1)\<rparr>))"
        then have i: "i \<in> set rest" by simp
        then have "i \<noteq> i0" using i0rest by auto
        moreover have "\<exists>j. map_of (jobs q) i = Some j \<and> status j = Pending"
          using queue_inv_queued[OF inv] i sub by blast
        ultimately show "\<exists>j. map_of (jobs (q\<lparr>processingQueue := rest,
            jobs := AList.update i0 ?job1 (jobs q), current := Some (i0, ?job1)\<rparr>)) i = Some j
            \<and> status j = Pending"
          by (simp add: update_conv')
      qed
      show "\<forall>i j. map_of (jobs (q\<lparr>processingQueue := rest, jobs := AList.update i0 ?job1 (jobs q),
                current := Some (i0, ?job1)\<rparr>)) i = Some j \<longrightarrow>
             (completedAt j \<noteq> None) = terminal (status j)"
        using queue_inv_completed[OF inv] cnone by (auto simp: update_conv' terminal_def)
      show "case current (q\<lparr>processingQueue := rest, jobs := AList.update i0 ?job1 (jobs q),
                current := Some (i0, ?job1)\<rparr>) of
              None \<Rightarrow> True
            | Some (i, j) \<Rightarrow>
                map_of (jobs (q\<lparr>processingQueue := rest, jobs := AList.update i0 ?job1 (jobs q),
                  current := Some (i0, ?job1)\<rparr>)) i = Some j \<and> status j = Processing
                \<and> i \<notin> set (processingQueue (q\<lparr>processingQueue := rest,
                      jobs := AList.update i0 ?job1 (jobs q), current := Some (i0, ?job1)\<rparr>))"
        using i0rest by (simp add: update_conv')
    qed
    have b: "\<forall>i. (map_of (jobs (run_loop q)) i = None) = (map_of (jobs q) i = None)"
      unfolding rl using nj(1) by (auto simp: update_conv')
    have c: "\<forall>i j j'. map_of (jobs q) i = Some j \<longrightarrow> map_of (jobs (run_loop q)) i = Some j' \<longrightarrow>
          j' = j
          \<or> (status j = Pending \<and> j' = j\<lparr>status := Processing\<rparr> \<and> i \<in> set (processingQueue q)
              \<and> i \<notin> set (processingQueue (run_loop q)) \<and> current (run_loop q) = Some (i, j'))"
      unfolding rl using nj(1) pend i0in i0rest by (auto simp: update_conv' split: if_splits)
    have e: "set (processingQueue (run_loop q)) \<subseteq> set (processingQueue q)"
      unfolding rl using sub by simp
    have f: "\<forall>i j. current (run_loop q) = Some (i, j) \<longrightarrow> i \<in> set (processingQueue q)"
      unfolding rl using i0in by simp
    show ?thesis using a b c e f by blast
  qed
qed


lemma processJob_terminal:
  "terminal (status (fst (processJob H b64 toISO cm job env)))
   \<and> completedAt (fst (processJob H b64 toISO cm job env)) = Some (t_done env)"
  by (auto simp: processJob_def completeJob_def failJob_def terminal_def
      split: prod.splits option.splits sum.splits)

lemma map_of_filter_distinct:
  assumes "distinct (map fst al)"
  shows "map_of (filter P al) k =
     (case map_of al k of None \<Rightarrow> None | Some v \<Rightarrow> if P (k, v) then Some v else None)"
  using assms
proof (induction al)
  case Nil
  then show ?case by simp
next
  case (Cons a al)
  obtain k0 v0 where a: "a = (k0, v0)" by (cases a)
  have "k0 \<notin> fst ` set al" using Cons.prems a by simp
  then have none: "map_of al k0 = None" by (simp add: map_of_eq_None_iff)
  show ?case
  proof (cases "k = k0")
    case True
    then show ?thesis using a none Cons by simp
  next
    case False
    then show ?thesis using a Cons by simp
  qed
qed

lemma step_cleanup:
  assumes inv: "queue_inv q"
  shows "queue_inv (jq_cleanup q now)
    \<and> (\<forall>i j. map_of (jobs q) i = Some j \<longrightarrow>
          (case map_of (jobs (jq_cleanup q now)) i of
             None \<Rightarrow> terminal (status j)
           | Some j' \<Rightarrow> j' = j))
    \<and> (\<forall>i. map_of (jobs q) i = None \<longrightarrow> map_of (jobs (jq_cleanup q now)) i = None)"
proof -
  let ?P = "\<lambda>(i, job). \<not> (case completedAt job of None \<Rightarrow> False
                                | Some t \<Rightarrow> t \<noteq> 0 \<and> t < now - 3600000)"
  have d: "distinct (map fst (jobs q))" using inv by (simp add: queue_inv_def)
  have jq: "jobs (jq_cleanup q now) = filter ?P (jobs q)"
    and same: "processingQueue (jq_cleanup q now) = processingQueue q"
      "current (jq_cleanup q now) = current q" "isProcessing (jq_cleanup q now) = isProcessing q"
    by (simp_all add: jq_cleanup_def Let_def)
  have look: "\<And>i. map_of (jobs (jq_cleanup q now)) i =
      (case map_of (jobs q) i of None \<Rightarrow> None | Some v \<Rightarrow> if ?P (i, v) then Some v else None)"
    unfolding jq using d by (rule map_of_filter_distinct)
  have keep: "\<And>i j. map_of (jobs q) i = Some j \<Longrightarrow> \<not> terminal (status j) \<Longrightarrow>
      map_of (jobs (jq_cleanup q now)) i = Some j"
  proof -
    fix i j assume m: "map_of (jobs q) i = Some j" and nt: "\<not> terminal (status j)"
    then have "completedAt j = None" using queue_inv_completed[OF inv m] by simp
    then show "map_of (jobs (jq_cleanup q now)) i = Some j" using m by (simp add: look)
  qed
  have a: "queue_inv (jq_cleanup q now)"
    unfolding queue_inv_def same
  proof (intro conjI)
    show "distinct (map fst (jobs (jq_cleanup q now)))" unfolding jq using d by (rule distinct_map_filter)
    show "distinct (processingQueue q)" using inv by (simp add: queue_inv_def)
    show "current q \<noteq> None \<longrightarrow> isProcessing q" using inv by (simp add: queue_inv_def)
    show "\<forall>i\<in>set (processingQueue q). \<exists>j. map_of (jobs (jq_cleanup q now)) i = Some j \<and> status j = Pending"
    proof
      fix i assume "i \<in> set (processingQueue q)"
      then obtain j where j: "map_of (jobs q) i = Some j" "status j = Pending"
        using queue_inv_queued[OF inv] by blast
      then have "map_of (jobs (jq_cleanup q now)) i = Some j"
        by (intro keep) (simp_all add: terminal_def)
      then show "\<exists>j. map_of (jobs (jq_cleanup q now)) i = Some j \<and> status j = Pending"
        using j by simp
    qed
    show "\<forall>i j. map_of (jobs (jq_cleanup q now)) i = Some j \<longrightarrow>
            (completedAt j \<noteq> None) = terminal (status j)"
    proof (intro allI impI)
      fix i j assume "map_of (jobs (jq_cleanup q now)) i = Some j"
      then have "map_of (jobs q) i = Some j"
        by (auto simp: look split: option.splits if_splits)
      then show "(completedAt j \<noteq> None) = terminal (status j)"
        by (rule queue_inv_completed[OF inv])
    qed
    show "case current q of None \<Rightarrow> True
          | Some (i, j) \<Rightarrow> map_of (jobs (jq_cleanup q now)) i = Some j \<and> status j = Processing
                           \<and> i \<notin> set (processingQueue q)"
    proof (cases "current q")
      case None
      then show ?thesis by simp
    next
      case (Some p)
      obtain i j where p: "p = (i, j)" by (cases p)
      have c: "map_of (jobs q) i = Some j" "status j = Processing" "i \<notin> set (processingQueue q)"
        using queue_inv_current[OF inv] Some p by auto
      have "map_of (jobs (jq_cleanup q now)) i = Some j"
        using c by (intro keep) (simp_all add: terminal_def)
      then show ?thesis using Some p c by simp
    qed
  qed
  have b: "\<forall>i j. map_of (jobs q) i = Some j \<longrightarrow>
          (case map_of (jobs (jq_cleanup q now)) i of None \<Rightarrow> terminal (status j) | Some j' \<Rightarrow> j' = j)"
  proof (intro allI impI)
    fix i j assume m: "map_of (jobs q) i = Some j"
    show "case map_of (jobs (jq_cleanup q now)) i of None \<Rightarrow> terminal (status j) | Some j' \<Rightarrow> j' = j"
    proof (cases "terminal (status j)")
      case True
      then show ?thesis using m by (simp add: look split: option.splits)
    next
      case False
      then show ?thesis using keep[OF m] by simp
    qed
  qed
  have c: "\<forall>i. map_of (jobs q) i = None \<longrightarrow> map_of (jobs (jq_cleanup q now)) i = None"
    by (simp add: look)
  show ?thesis using a b c by blast
qed


lemma step_ok_refl: "step_ok q q"
  by (simp add: step_ok_def job_move_def)

lemma step_resume:
  assumes inv: "queue_inv q"
  shows "queue_inv (fst (resume H b64 toISO q cm env)) \<and> step_ok q (fst (resume H b64 toISO q cm env))"
proof (cases "current q")
  case None
  then show ?thesis using inv by (simp add: resume_def step_ok_refl)
next
  case (Some p)
  obtain i j where p: "p = (i, j)" by (cases p)
  have cur: "current q = Some (i, j)" using Some p by simp
  have c: "map_of (jobs q) i = Some j" "status j = Processing" "i \<notin> set (processingQueue q)"
    using queue_inv_current[OF inv cur] by auto
  have busy: "isProcessing q" using inv cur by (simp add: queue_inv_def)
  let ?job1 = "fst (processJob H b64 toISO cm j env)"
  let ?q2 = "q\<lparr>jobs := AList.update i ?job1 (jobs q), current := None\<rparr>"
  let ?q' = "run_loop ?q2"
  have r: "fst (resume H b64 toISO q cm env) = ?q'"
    using cur by (simp add: resume_def split_beta)
  have t1: "terminal (status ?job1)" and c1: "completedAt ?job1 = Some (t_done env)"
    using processJob_terminal[of H b64 toISO cm j env] by auto
  have cj: "completedAt j = None"
    using queue_inv_completed[OF inv c(1)] c(2) by (simp add: terminal_def)
  have look2: "\<And>x. map_of (jobs ?q2) x = (if x = i then Some ?job1 else map_of (jobs q) x)"
    by (simp add: update_conv')
  have inv2: "queue_inv ?q2"
    unfolding queue_inv_def
  proof (intro conjI)
    show "distinct (map fst (jobs ?q2))" using inv by (simp add: queue_inv_def distinct_update)
    show "distinct (processingQueue ?q2)" using inv by (simp add: queue_inv_def)
    show "current ?q2 \<noteq> None \<longrightarrow> isProcessing ?q2" by simp
    show "\<forall>x\<in>set (processingQueue ?q2). \<exists>j. map_of (jobs ?q2) x = Some j \<and> status j = Pending"
    proof
      fix x assume "x \<in> set (processingQueue ?q2)"
      then have x: "x \<in> set (processingQueue q)" by simp
      then have "x \<noteq> i" using c(3) by auto
      then show "\<exists>j. map_of (jobs ?q2) x = Some j \<and> status j = Pending"
        using queue_inv_queued[OF inv x] by (simp add: update_conv')
    qed
    show "\<forall>x j. map_of (jobs ?q2) x = Some j \<longrightarrow> (completedAt j \<noteq> None) = terminal (status j)"
      using queue_inv_completed[OF inv] t1 c1 by (auto simp: update_conv' split: if_splits)
    show "case current ?q2 of None \<Rightarrow> True
          | Some (i, j) \<Rightarrow> map_of (jobs ?q2) i = Some j \<and> status j = Processing
                           \<and> i \<notin> set (processingQueue ?q2)"
      by simp
  qed
  have idle2: "current ?q2 = None" and busy2: "isProcessing ?q2" using busy by simp_all
  note R = run_loop_step[OF inv2 idle2 busy2]
  have dom: "\<And>x. (map_of (jobs ?q') x = None) = (map_of (jobs ?q2) x = None)"
    using R by blast
  have mv: "\<And>x a b. map_of (jobs ?q2) x = Some a \<Longrightarrow> map_of (jobs ?q') x = Some b \<Longrightarrow>
      b = a \<or> (status a = Pending \<and> b = a\<lparr>status := Processing\<rparr> \<and> x \<in> set (processingQueue ?q2)
              \<and> x \<notin> set (processingQueue ?q') \<and> current ?q' = Some (x, b))"
    using R by blast
  have ok: "step_ok q ?q'"
    unfolding step_ok_def
  proof (intro conjI allI impI)
    fix x a assume m: "map_of (jobs q) x = Some a"
    show "case map_of (jobs ?q') x of None \<Rightarrow> terminal (status a) | Some b \<Rightarrow> job_move q ?q' x a b"
    proof (cases "x = i")
      case True
      then have a: "a = j" using m c(1) by simp
      have m2: "map_of (jobs ?q2) x = Some ?job1" using True by (simp add: update_conv')
      then obtain b where b: "map_of (jobs ?q') x = Some b" using dom[of x] by auto
      have "b = ?job1"
        using mv[OF m2 b] t1 True c(3) by (auto simp: terminal_def)
      then show ?thesis
        using b a True cur c(2) cj c1 t1 by (simp add: job_move_def)
    next
      case False
      then have m2: "map_of (jobs ?q2) x = Some a" using m by (simp add: update_conv')
      then obtain b where b: "map_of (jobs ?q') x = Some b" using dom[of x] by auto
      show ?thesis using mv[OF m2 b] b by (auto simp: job_move_def)
    qed
  next
    fix x b assume n: "map_of (jobs q) x = None" and s: "map_of (jobs ?q') x = Some b"
    have "x \<noteq> i" using n c(1) by auto
    then have "map_of (jobs ?q2) x = None" using n by (simp add: update_conv')
    then have False using dom[of x] s by simp
    then show "completedAt b = None"
      and "status b = Pending \<or> status b = Processing \<and> current ?q' = Some (x, b)" by simp_all
  qed
  show ?thesis unfolding r using R ok by blast
qed


lemma step_create:
  assumes inv: "queue_inv q" and fresh: "map_of (jobs q) (generateJobId now rnd) = None"
  shows "queue_inv (snd (createJob U q raw now rnd created)) \<and> step_ok q (snd (createJob U q raw now rnd created))"
proof (cases "valid (validateUrl U (url_arg raw)) \<and> url (sanitizeScreenshotParams raw) \<noteq> []")
  case False
  then have "snd (createJob U q raw now rnd created) = q"
    by (auto simp: createJob_def Let_def)
  then show ?thesis using inv by (simp add: step_ok_refl)
next
  case True
  let ?i = "generateJobId now rnd"
  let ?sp = "sanitizeScreenshotParams raw"
  let ?job = "\<lparr>job_id = ?i, status = Pending, params = ?sp, result = None,
                 error = None, job_createdAt = created, completedAt = None\<rparr>"
  let ?q1 = "q\<lparr>jobs := AList.update ?i ?job (jobs q), processingQueue := processingQueue q @ [?i]\<rparr>"
  have reg: "registerJob q ?i ?sp created = ?q1" by (simp add: registerJob_def)
  have notq: "?i \<notin> set (processingQueue q)"
    using queue_inv_queued[OF inv, of ?i] fresh by auto
  have notc: "\<And>j. current q \<noteq> Some (?i, j)"
    using queue_inv_current[OF inv, of ?i] fresh by auto
  have inv1: "queue_inv (?q1\<lparr>isProcessing := b\<rparr>)" if "current q \<noteq> None \<longrightarrow> b" for b
    unfolding queue_inv_def
  proof (intro conjI)
    show "distinct (map fst (jobs (?q1\<lparr>isProcessing := b\<rparr>)))"
      using inv by (simp add: queue_inv_def distinct_update)
    show "distinct (processingQueue (?q1\<lparr>isProcessing := b\<rparr>))"
      using inv notq by (simp add: queue_inv_def)
    show "current (?q1\<lparr>isProcessing := b\<rparr>) \<noteq> None \<longrightarrow> isProcessing (?q1\<lparr>isProcessing := b\<rparr>)"
      using that by simp
    show "\<forall>x\<in>set (processingQueue (?q1\<lparr>isProcessing := b\<rparr>)).
            \<exists>j. map_of (jobs (?q1\<lparr>isProcessing := b\<rparr>)) x = Some j \<and> status j = Pending"
    proof
      fix x assume "x \<in> set (processingQueue (?q1\<lparr>isProcessing := b\<rparr>))"
      then have "x = ?i \<or> (x \<noteq> ?i \<and> x \<in> set (processingQueue q))" using notq by auto
      then show "\<exists>j. map_of (jobs (?q1\<lparr>isProcessing := b\<rparr>)) x = Some j \<and> status j = Pending"
        using queue_inv_queued[OF inv, of x] by (auto simp: update_conv')
    qed
    show "\<forall>x j. map_of (jobs (?q1\<lparr>isProcessing := b\<rparr>)) x = Some j \<longrightarrow>
            (completedAt j \<noteq> None) = terminal (status j)"
      using queue_inv_completed[OF inv] by (auto simp: update_conv' terminal_def split: if_splits)
    show "case current (?q1\<lparr>isProcessing := b\<rparr>) of None \<Rightarrow> True
          | Some (i, j) \<Rightarrow> map_of (jobs (?q1\<lparr>isProcessing := b\<rparr>)) i = Some j \<and> status j = Processing
                           \<and> i \<notin> set (processingQueue (?q1\<lparr>isProcessing := b\<rparr>))"
    proof (cases "current q")
      case None
      then show ?thesis by simp
    next
      case (Some p)
      obtain i0 j0 where p: "p = (i0, j0)" by (cases p)
      have "i0 \<noteq> ?i" using notc Some p by auto
      then show ?thesis using queue_inv_current[OF inv, of i0 j0] Some p by (simp add: update_conv')
    qed
  qed
  show ?thesis
  proof (cases "isProcessing q")
    case busy: True
    have q': "snd (createJob U q raw now rnd created) = ?q1"
      using True busy by (simp add: createJob_def Let_def reg)
    have "?q1\<lparr>isProcessing := True\<rparr> = ?q1" using busy by simp
    then have i1: "queue_inv ?q1" using inv1[of True] by simp
    have "step_ok q ?q1"
      unfolding step_ok_def using fresh by (auto simp: update_conv' job_move_def)
    then show ?thesis unfolding q' using i1 by simp
  next
    case idle: False
    let ?qb = "?q1\<lparr>isProcessing := True\<rparr>"
    let ?q' = "run_loop ?qb"
    have q': "snd (createJob U q raw now rnd created) = ?q'"
      using True idle by (simp add: createJob_def Let_def reg processQueue_def)
    have cnone: "current q = None" using queue_inv_busy[OF inv] idle by blast
    have invb: "queue_inv ?qb" by (rule inv1) simp
    have idleb: "current ?qb = None" and busyb: "isProcessing ?qb" using cnone by simp_all
    note R = run_loop_step[OF invb idleb busyb]
    have dom: "\<And>x. (map_of (jobs ?q') x = None) = (map_of (jobs ?qb) x = None)"
      using R by blast
    have mv: "\<And>x a b. map_of (jobs ?qb) x = Some a \<Longrightarrow> map_of (jobs ?q') x = Some b \<Longrightarrow>
      b = a \<or> (status a = Pending \<and> b = a\<lparr>status := Processing\<rparr> \<and> x \<in> set (processingQueue ?qb)
              \<and> x \<notin> set (processingQueue ?q') \<and> current ?q' = Some (x, b))"
      using R by blast
    have ok: "step_ok q ?q'"
      unfolding step_ok_def
    proof (intro conjI allI impI)
      fix x a assume m: "map_of (jobs q) x = Some a"
      then have ne: "x \<noteq> ?i" using fresh by auto
      then have m2: "map_of (jobs ?qb) x = Some a" using m by (simp add: update_conv')
      then obtain b where b: "map_of (jobs ?q') x = Some b" using dom[of x] by auto
      show "case map_of (jobs ?q') x of None \<Rightarrow> terminal (status a) | Some b \<Rightarrow> job_move q ?q' x a b"
        using mv[OF m2 b] b ne by (auto simp: job_move_def)
    next
      fix x b assume n: "map_of (jobs q) x = None" and s: "map_of (jobs ?q') x = Some b"
      have "map_of (jobs ?qb) x \<noteq> None" using dom[of x] s by simp
      then have x: "x = ?i" using n by (auto simp: update_conv' split: if_splits)
      then have m2: "map_of (jobs ?qb) x = Some ?job" by (simp add: update_conv')
      from mv[OF m2 s]
      show "completedAt b = None"
        and "status b = Pending \<or> status b = Processing \<and> current ?q' = Some (x, b)"
        by auto
    qed
    show ?thesis unfolding q' using R ok by blast
  qed
qed

lemma step_inv_ok:
  assumes "queue_inv q" and "fresh_event q e"
  shows "queue_inv (q_step U H b64 toISO e q) \<and> step_ok q (q_step U H b64 toISO e q)"
proof (cases e)
  case (CreateJob raw now rnd created)
  then show ?thesis using assms step_create by simp
next
  case (Resume cm env)
  then show ?thesis using assms step_resume by simp
next
  case (Cleanup now)
  note C = step_cleanup[OF assms(1), of now]
  have "step_ok q (jq_cleanup q now)"
    unfolding step_ok_def
  proof (intro conjI allI impI)
    fix i j assume m: "map_of (jobs q) i = Some j"
    have "case map_of (jobs (jq_cleanup q now)) i of None \<Rightarrow> terminal (status j) | Some j' \<Rightarrow> j' = j"
      using C m by blast
    then show "case map_of (jobs (jq_cleanup q now)) i of
                 None \<Rightarrow> terminal (status j)
               | Some j' \<Rightarrow> job_move q (jq_cleanup q now) i j j'"
      by (simp add: job_move_def split: option.splits)
  next
    fix i j' assume "map_of (jobs q) i = None" and s: "map_of (jobs (jq_cleanup q now)) i = Some j'"
    then have "map_of (jobs (jq_cleanup q now)) i = None" using C by blast
    then have False using s by simp
    then show "completedAt j' = None"
      and "status j' = Pending \<or> status j' = Processing \<and> current (jq_cleanup q now) = Some (i, j')"
      by simp_all
  qed
  then show ?thesis using Cleanup C by simp
qed

lemma reachable_inv: "reachable U H b64 toISO q \<Longrightarrow> queue_inv q"
proof (induction rule: reachable.induct)
  case initial
  then show ?case by (rule queue_inv_initial)
next
  case (step q e)
  then show ?case using step_inv_ok by blast
qed


text \<open>
  Claim C3. In every state the scheduler can reach, and for every call that
  changes it (a creation with a fresh identifier, a resumption of the worker
  loop, a cleanup): a job has a completion time exactly when its status is
  terminal; a job that is still there afterwards has kept its status or moved
  one step along pending, processing, completed or failed; a terminal job is
  unchanged; the completion time changes only in the step from processing to a
  terminal status, from unset to set, and that step always sets it; a job goes
  from pending to processing only as the queued identifier the worker loop has
  just dequeued; a job disappears only when terminal; a new job has no
  completion time and is pending, or processing as the job the worker loop has
  just dequeued; and the record \<open>createJob\<close> registers is pending.
\<close>

theorem job_status_moves_forward:
  assumes "reachable U H b64 toISO q" and "fresh_event q e"
  shows "(\<forall>i j. map_of (jobs q) i = Some j \<longrightarrow>
            (completedAt j \<noteq> None) = terminal (status j)
            \<and> (case map_of (jobs (q_step U H b64 toISO e q)) i of
                 None \<Rightarrow> terminal (status j)
               | Some j' \<Rightarrow>
                   status_forward (status j) (status j')
                   \<and> (terminal (status j) \<longrightarrow> j' = j)
                   \<and> (completedAt j' \<noteq> completedAt j \<longrightarrow>
                        status j = Processing \<and> terminal (status j') \<and> completedAt j = None)
                   \<and> (status j' \<noteq> status j \<and> terminal (status j') \<longrightarrow>
                        completedAt j = None \<and> completedAt j' \<noteq> None)
                   \<and> (status j = Pending \<and> status j' = Processing \<longrightarrow>
                        i \<in> set (processingQueue q)
                        \<and> i \<notin> set (processingQueue (q_step U H b64 toISO e q))
                        \<and> current (q_step U H b64 toISO e q) = Some (i, j'))))
    \<and> (\<forall>i j'. map_of (jobs q) i = None \<longrightarrow> map_of (jobs (q_step U H b64 toISO e q)) i = Some j' \<longrightarrow>
           completedAt j' = None
           \<and> (status j' = Pending
               \<or> status j' = Processing \<and> current (q_step U H b64 toISO e q) = Some (i, j')))
    \<and> (\<forall>i sp now. map_option status (map_of (jobs (registerJob q i sp now)) i) = Some Pending)"
proof -
  let ?q' = "q_step U H b64 toISO e q"
  have inv: "queue_inv q" using assms(1) by (rule reachable_inv)
  have ok: "step_ok q ?q'" using step_inv_ok[OF inv assms(2)] by blast
  have a: "\<forall>i j. map_of (jobs q) i = Some j \<longrightarrow>
            (completedAt j \<noteq> None) = terminal (status j)
            \<and> (case map_of (jobs ?q') i of
                 None \<Rightarrow> terminal (status j)
               | Some j' \<Rightarrow>
                   status_forward (status j) (status j')
                   \<and> (terminal (status j) \<longrightarrow> j' = j)
                   \<and> (completedAt j' \<noteq> completedAt j \<longrightarrow>
                        status j = Processing \<and> terminal (status j') \<and> completedAt j = None)
                   \<and> (status j' \<noteq> status j \<and> terminal (status j') \<longrightarrow>
                        completedAt j = None \<and> completedAt j' \<noteq> None)
                   \<and> (status j = Pending \<and> status j' = Processing \<longrightarrow>
                        i \<in> set (processingQueue q) \<and> i \<notin> set (processingQueue ?q')
                        \<and> current ?q' = Some (i, j')))"
  proof (intro allI impI conjI)
    fix i j assume m: "map_of (jobs q) i = Some j"
    show "(completedAt j \<noteq> None) = terminal (status j)"
      using inv m by (rule queue_inv_completed)
    have c: "case map_of (jobs ?q') i of None \<Rightarrow> terminal (status j) | Some j' \<Rightarrow> job_move q ?q' i j j'"
      using ok m unfolding step_ok_def by blast
    show "case map_of (jobs ?q') i of
            None \<Rightarrow> terminal (status j)
          | Some j' \<Rightarrow>
              status_forward (status j) (status j')
              \<and> (terminal (status j) \<longrightarrow> j' = j)
              \<and> (completedAt j' \<noteq> completedAt j \<longrightarrow>
                   status j = Processing \<and> terminal (status j') \<and> completedAt j = None)
              \<and> (status j' \<noteq> status j \<and> terminal (status j') \<longrightarrow>
                   completedAt j = None \<and> completedAt j' \<noteq> None)
              \<and> (status j = Pending \<and> status j' = Processing \<longrightarrow>
                   i \<in> set (processingQueue q) \<and> i \<notin> set (processingQueue ?q')
                   \<and> current ?q' = Some (i, j'))"
    proof (cases "map_of (jobs ?q') i")
      case None
      then show ?thesis using c by simp
    next
      case (Some j')
      then have "job_move q ?q' i j j'" using c by simp
      then have "j' = j
          \<or> (status j = Pending \<and> j' = j\<lparr>status := Processing\<rparr> \<and> i \<in> set (processingQueue q)
              \<and> i \<notin> set (processingQueue ?q') \<and> current ?q' = Some (i, j'))
          \<or> (status j = Processing \<and> terminal (status j') \<and> completedAt j = None
              \<and> completedAt j' \<noteq> None)"
        unfolding job_move_def by blast
      then show ?thesis
      proof (elim disjE conjE)
        assume "j' = j"
        then show ?thesis using Some by (auto simp: status_forward_def)
      next
        assume "status j = Pending" "j' = j\<lparr>status := Processing\<rparr>" "i \<in> set (processingQueue q)"
          "i \<notin> set (processingQueue ?q')" "current ?q' = Some (i, j')"
        then show ?thesis using Some by (auto simp: status_forward_def terminal_def)
      next
        assume "status j = Processing" "terminal (status j')" "completedAt j = None"
          "completedAt j' \<noteq> None"
        then show ?thesis using Some by (auto simp: status_forward_def terminal_def)
      qed
    qed
  qed
  have b: "\<forall>i j'. map_of (jobs q) i = None \<longrightarrow> map_of (jobs ?q') i = Some j' \<longrightarrow>
           completedAt j' = None
           \<and> (status j' = Pending \<or> status j' = Processing \<and> current ?q' = Some (i, j'))"
    using ok unfolding step_ok_def by blast
  have c: "\<forall>i sp now. map_option status (map_of (jobs (registerJob q i sp now)) i) = Some Pending"
    by (simp add: registerJob_def update_conv')
  show ?thesis using a b c by (intro conjI)
qed





theorem job_status_moves_forward_witness:
  "reachable demo_URL demo_digest demo_b64 demo_toISO demo_queue
   \<and> fresh_event demo_queue (Resume empty_cache failing_env)
   \<and> map_of (jobs demo_queue) demo_id = Some demo_job
   \<and> map_of (jobs (q_step demo_URL demo_digest demo_b64 demo_toISO (Resume empty_cache failing_env)
         demo_queue)) demo_id = Some failed_job
   \<and> status_forward (status demo_job) (status failed_job)
   \<and> completedAt demo_job = None \<and> completedAt failed_job \<noteq> None"
proof -
  have "reachable demo_URL demo_digest demo_b64 demo_toISO
          (q_step demo_URL demo_digest demo_b64 demo_toISO
             (CreateJob (raw_of_url ''https://example.com'') 1700000000000 ''k3j9x0a1b'' 1700000000000) newJobQueue)"
    by (rule reachable.step[OF reachable.initial]) (simp add: newJobQueue_def)
  then have r: "reachable demo_URL demo_digest demo_b64 demo_toISO demo_queue"
    by (simp add: demo_queue_def)
  have f: "fresh_event demo_queue (Resume empty_cache failing_env)" by simp
  have m: "map_of (jobs demo_queue) demo_id = Some demo_job" by code_simp
  have cur: "current demo_queue = Some (demo_id, demo_job)" by code_simp
  have pq: "processingQueue demo_queue = []" by code_simp
  have pj: "fst (processJob demo_digest demo_b64 demo_toISO empty_cache demo_job failing_env) = failed_job"
    by code_simp
  have m': "map_of (jobs (q_step demo_URL demo_digest demo_b64 demo_toISO
         (Resume empty_cache failing_env) demo_queue)) demo_id = Some failed_job"
    by (simp add: resume_def cur split_beta run_loop_def pq pj update_conv')
  note T = job_status_moves_forward [OF r f, THEN conjunct1, rule_format, OF m, THEN conjunct2]
  have fw: "status_forward (status demo_job) (status failed_job)"
    using T[unfolded m', simplified option.case, THEN conjunct1] .
  have c0: "completedAt demo_job = None" by (simp add: demo_job_def)
  have c1: "completedAt failed_job \<noteq> None" by (simp add: failed_job_def demo_job_def)
  from r f m m' fw c0 c1 show ?thesis by blast
qed

end
